theory Spec2Isabelle
  imports Main
begin

section \<open>The useAsyncData hook: data model\<close>

text \<open>
  The hook \<^verbatim>\<open>useAsyncData(asyncFunc, deps, cacheKey)\<close> keeps three state variables
  (\<^verbatim>\<open>data\<close>, \<^verbatim>\<open>isLoading\<close>, \<^verbatim>\<open>error\<close>), two refs (\<^verbatim>\<open>latestRequestId\<close>,
  \<^verbatim>\<open>cacheEntryStatus\<close>) and shares two module-level maps (\<^verbatim>\<open>asyncDataCache\<close>,
  \<^verbatim>\<open>subscribers\<close>) with every other instance.  JavaScript runs it on one thread, so
  the model is a state record and one function per piece of synchronous code: the
  code before an \<^verbatim>\<open>await\<close> registers a continuation, and the code after it runs
  when the awaited promise settles.

  Promises are numbered in the order the producer creates them; every call of
  \<^verbatim>\<open>asyncFunc()\<close> returns a fresh pending promise and is written to a log (a
  producer that throws before it returns a promise is not modelled: its type is
  \<^verbatim>\<open>() => Promise<T>\<close>).  When and how a promise settles is up to the
  environment: it is an event.  Hook instances are numbered in the order they
  mount.  \<^verbatim>\<open>T | null\<close> is \<open>'a option\<close>, and a producer may resolve with \<^verbatim>\<open>null\<close>
  or \<^verbatim>\<open>undefined\<close>: the value a promise fulfils with is an \<open>'a option\<close> too.  The
  request counter is a JavaScript number that is only ever incremented by one; it
  is a \<open>nat\<close> here.  React's state setters do not throw, and React drops a state
  update of an instance that has been unmounted.
\<close>

datatype status = Idle | Pending | Resolved | Rejected

datatype js_error = Error (message: string)

text \<open>
  A promise can be rejected with any JavaScript value.  Apart from \<^verbatim>\<open>Error\<close>
  instances, what the hook does with the value is \<^verbatim>\<open>String(err)\<close>, so every other
  value is represented by what \<^verbatim>\<open>String\<close> does on it: \<open>JConvertible str\<close> is a
  value that \<^verbatim>\<open>String\<close> turns into \<open>str\<close> (a number, a symbol, an object with a
  \<^verbatim>\<open>toString\<close> method, \<^verbatim>\<open>{}\<close> giving \<^verbatim>\<open>[object Object]\<close>); \<open>JUnconvertible x\<close> is
  a value on which \<^verbatim>\<open>String\<close> throws \<open>x\<close> (\<^verbatim>\<open>Object.create(null)\<close>, which has no
  \<^verbatim>\<open>toString\<close> and no \<^verbatim>\<open>valueOf\<close>, gives a \<^verbatim>\<open>TypeError\<close>; an object whose
  \<^verbatim>\<open>toString\<close> throws gives what it throws).  A \<^verbatim>\<open>toString\<close> method that calls
  back into the hook is not modelled.
\<close>

datatype js_value =
    JUndefined | JNull | JBool bool | JString string | JError js_error
  | JConvertible string | JUnconvertible js_value

text \<open>
  \<^verbatim>\<open>String(v)\<close>: the string it returns (\<open>Inr\<close>) or the value it throws (\<open>Inl\<close>).
\<close>

fun js_String :: "js_value \<Rightarrow> js_value + string" where
  "js_String JUndefined = Inr ''undefined''"
| "js_String JNull = Inr ''null''"
| "js_String (JBool b) = Inr (if b then ''true'' else ''false'')"
| "js_String (JString s) = Inr s"
| "js_String (JError e) = Inr (''Error: '' @ message e)"
| "js_String (JConvertible str) = Inr str"
| "js_String (JUnconvertible thrown) = Inl thrown"

text \<open>
  The value of \<^verbatim>\<open>Object.create(null)\<close> and the \<^verbatim>\<open>TypeError\<close> that \<^verbatim>\<open>String\<close> throws
  on it.
\<close>

definition typeError :: js_value where
  "typeError = JError (Error ''Cannot convert object to primitive value'')"

definition nullPrototypeObject :: js_value where
  "nullPrototypeObject = JUnconvertible typeError"

text \<open>
  \<^verbatim>\<open>err instanceof Error ? err : new Error(String(err))\<close>: the \<^verbatim>\<open>Error\<close> to set,
  or the exception of \<^verbatim>\<open>String\<close>.
\<close>

fun errorToSet :: "js_value \<Rightarrow> js_value + js_error" where
  "errorToSet (JError e) = Inr e"
| "errorToSet v = (case js_String v of Inl thrown \<Rightarrow> Inl thrown | Inr str \<Rightarrow> Inr (Error str))"

datatype 'a outcome = Fulfilled "'a option" | Rejects js_value

record 'a CacheEntry =
  promise :: "nat option"
  status :: status
  entry_data :: "'a option"
  entry_error :: "js_error option"

text \<open>
  One run of the effect.  Its closure holds the \<^verbatim>\<open>cacheKey\<close> of the render that
  created it and the \<^verbatim>\<open>currentRequestId\<close> its \<^verbatim>\<open>initializeFetch\<close> drew; the
  request id is different for every run of one instance, so the triple also
  identifies the \<^verbatim>\<open>handleCacheUpdate\<close> function object of the run, which is what
  the subscriber sets hold.
\<close>

record effect_run =
  eff_hook :: nat
  eff_requestId :: nat
  eff_cacheKey :: "string option"

record 'a hook =
  data :: "'a option"
  isLoading :: bool
  error :: "js_error option"
  latestRequestId :: nat
  cacheEntryStatus :: "'a CacheEntry"
  cacheKey :: "string option"
  cleanupCalled :: "nat \<Rightarrow> bool"
  destroy :: "effect_run option"
  mounted :: bool

text \<open>
  \<open>cacheKey\<close> is the argument of the latest render; \<open>cleanupCalled h r\<close> is the
  variable \<^verbatim>\<open>cleanupCalled\<close> of the effect run with request id \<open>r\<close>; \<open>destroy\<close>
  is the cleanup function React keeps for the last effect run (none once the
  instance is unmounted); \<open>mounted\<close> is React's own knowledge of whether the
  component is still there.
\<close>

text \<open>
  The two places where the code suspends: in \<^verbatim>\<open>fetchData\<close> (instance, key, request
  id, awaited promise) and in \<^verbatim>\<open>initializeFetch\<close> (the effect run).
\<close>

datatype cont =
    FetchData_await nat "string option" nat nat
  | InitializeFetch_await effect_run

fun cont_hook :: "cont \<Rightarrow> nat" where
  "cont_hook (FetchData_await i k r p) = i"
| "cont_hook (InitializeFetch_await eff) = eff_hook eff"

fun cont_id :: "cont \<Rightarrow> nat" where
  "cont_id (FetchData_await i k r p) = r"
| "cont_id (InitializeFetch_await eff) = eff_requestId eff"

record invocation =
  inv_hook :: nat
  inv_cacheKey :: "string option"
  inv_requestId :: nat
  inv_promise :: nat

record 'a state =
  asyncDataCache :: "string \<rightharpoonup> 'a CacheEntry"
  subscribers :: "string \<rightharpoonup> effect_run list"
  hooks :: "'a hook list"
  promises :: "'a outcome option list"
  awaiting :: "(nat \<times> cont) list"
  calls :: "invocation list"
  unhandledRejections :: "(nat \<times> js_value) list"

text \<open>
  \<open>unhandledRejections\<close> records the exceptions that left an async function of
  the hook (nothing awaits the promises \<^verbatim>\<open>fetchData\<close> and \<^verbatim>\<open>initializeFetch\<close>
  return), each with the instance it belongs to.
\<close>

definition init :: "'a state" where
  "init = \<lparr>asyncDataCache = Map.empty, subscribers = Map.empty, hooks = [],
           promises = [], awaiting = [], calls = [], unhandledRejections = []\<rparr>"

definition idleEntry :: "'a CacheEntry" where
  "idleEntry = \<lparr>promise = None, status = Idle, entry_data = None, entry_error = None\<rparr>"

definition initial_hook :: "string option \<Rightarrow> 'a hook" where
  "initial_hook k = \<lparr>data = None, isLoading = True, error = None, latestRequestId = 0,
     cacheEntryStatus = idleEntry, cacheKey = k, cleanupCalled = (\<lambda>r. False),
     destroy = None, mounted = True\<rparr>"

text \<open>\<^verbatim>\<open>if (cacheKey)\<close>: \<^verbatim>\<open>undefined\<close> and the empty string are falsy.\<close>

definition truthy :: "string option \<Rightarrow> string option" where
  "truthy k = (case k of None \<Rightarrow> None | Some str \<Rightarrow> if str = [] then None else Some str)"

section \<open>The subscriber registry\<close>

text \<open>
  A JavaScript \<^verbatim>\<open>Set\<close> iterates in insertion order and holds no element twice: a
  list without repetitions.  \<^verbatim>\<open>forEach\<close> has no \<^verbatim>\<open>try\<close>: the first callback
  that throws ends the iteration and the exception leaves \<^verbatim>\<open>notifySubscribers\<close>.
  A call returns the state it leaves and the exception it throws, if any.  The
  callbacks are run over the set as it is when the iteration starts; the only
  callback the hook registers, \<^verbatim>\<open>handleCacheUpdate\<close>, never adds to the set or
  deletes from it.
\<close>

fun forEach :: "('c \<Rightarrow> 's \<Rightarrow> 's \<times> 'x option) \<Rightarrow> 'c list \<Rightarrow> 's \<Rightarrow> 's \<times> 'x option" where
  "forEach call [] s = (s, None)"
| "forEach call (callback # rest) s =
     (case call callback s of
        (s', None) \<Rightarrow> forEach call rest s'
      | (s', Some x) \<Rightarrow> (s', Some x))"

definition notifySubscribers ::
  "('k \<rightharpoonup> 'c list) \<Rightarrow> ('c \<Rightarrow> 's \<Rightarrow> 's \<times> 'x option) \<Rightarrow> 'k \<Rightarrow> 's \<Rightarrow> 's \<times> 'x option" where
  "notifySubscribers subs call k s =
     (case subs k of None \<Rightarrow> (s, None) | Some callbacks \<Rightarrow> forEach call callbacks s)"

definition subscribe :: "'k \<Rightarrow> 'c \<Rightarrow> ('k \<rightharpoonup> 'c list) \<Rightarrow> ('k \<rightharpoonup> 'c list)" where
  "subscribe k callback subs =
     (let subs1 = (if subs k = None then subs(k \<mapsto> []) else subs)
      in case subs1 k of
           None \<Rightarrow> subs1
         | Some callbacks \<Rightarrow>
             subs1(k \<mapsto> (if callback \<in> set callbacks then callbacks else callbacks @ [callback])))"

definition unsubscribe :: "'k \<Rightarrow> 'c \<Rightarrow> ('k \<rightharpoonup> 'c list) \<Rightarrow> ('k \<rightharpoonup> 'c list)" where
  "unsubscribe k callback subs =
     (case subs k of
        None \<Rightarrow> subs
      | Some callbacks \<Rightarrow>
          (let callbacks' = removeAll callback callbacks
           in if callbacks' = [] then subs(k := None) else subs(k \<mapsto> callbacks')))"

section \<open>State setters\<close>

text \<open>
  A ref is an ordinary object: writing it works at any time.  A state setter goes
  through React, which ignores it once the instance is unmounted.
\<close>

definition update_hook :: "nat \<Rightarrow> ('a hook \<Rightarrow> 'a hook) \<Rightarrow> 'a state \<Rightarrow> 'a state" where
  "update_hook i f s = s\<lparr>hooks := (hooks s)[i := f (hooks s ! i)]\<rparr>"

definition setState :: "nat \<Rightarrow> ('a hook \<Rightarrow> 'a hook) \<Rightarrow> 'a state \<Rightarrow> 'a state" where
  "setState i f = update_hook i (\<lambda>h. if mounted h then f h else h)"

definition setData :: "nat \<Rightarrow> 'a option \<Rightarrow> 'a state \<Rightarrow> 'a state" where
  "setData i v = setState i (\<lambda>h. h\<lparr>data := v\<rparr>)"

definition setIsLoading :: "nat \<Rightarrow> bool \<Rightarrow> 'a state \<Rightarrow> 'a state" where
  "setIsLoading i b = setState i (\<lambda>h. h\<lparr>isLoading := b\<rparr>)"

definition setError :: "nat \<Rightarrow> js_error option \<Rightarrow> 'a state \<Rightarrow> 'a state" where
  "setError i e = setState i (\<lambda>h. h\<lparr>error := e\<rparr>)"

definition setCacheEntryStatus :: "nat \<Rightarrow> 'a CacheEntry \<Rightarrow> 'a state \<Rightarrow> 'a state" where
  "setCacheEntryStatus i e = update_hook i (\<lambda>h. h\<lparr>cacheEntryStatus := e\<rparr>)"

definition cache_set :: "string \<Rightarrow> 'a CacheEntry \<Rightarrow> 'a state \<Rightarrow> 'a state" where
  "cache_set k e s = s\<lparr>asyncDataCache := (asyncDataCache s)(k \<mapsto> e)\<rparr>"

definition cache_delete :: "string \<Rightarrow> 'a state \<Rightarrow> 'a state" where
  "cache_delete k s = s\<lparr>asyncDataCache := (asyncDataCache s)(k := None)\<rparr>"

definition await :: "nat \<Rightarrow> cont \<Rightarrow> 'a state \<Rightarrow> 'a state" where
  "await p c s = s\<lparr>awaiting := awaiting s @ [(p, c)]\<rparr>"

section \<open>The subscription callback\<close>

text \<open>
  \<^verbatim>\<open>handleCacheUpdate\<close> reads the cache under the key of its closure and tests
  nothing but \<^verbatim>\<open>cleanupCalled\<close>.  It contains no statement that can throw.
\<close>

definition handleCacheUpdate :: "effect_run \<Rightarrow> 'a state \<Rightarrow> 'a state" where
  "handleCacheUpdate eff s =
     (let i = eff_hook eff in
      if \<not> cleanupCalled (hooks s ! i) (eff_requestId eff) then
        (case eff_cacheKey eff of
           None \<Rightarrow> s
         | Some k \<Rightarrow>
            (case asyncDataCache s k of
               None \<Rightarrow> s
             | Some cached \<Rightarrow>
                 if status cached = Resolved then
                   setError i None (setIsLoading i False (setData i (entry_data cached) s))
                 else if status cached = Rejected then
                   setIsLoading i False (setData i None (setError i (entry_error cached) s))
                 else s))
      else s)"

definition invoke :: "effect_run \<Rightarrow> 'a state \<Rightarrow> 'a state \<times> js_value option" where
  "invoke callback s = (handleCacheUpdate callback s, None)"

section \<open>fetchData\<close>

text \<open>Lines 114 to 129: call the producer, publish the pending entry, suspend.\<close>

definition fetchData_request :: "nat \<Rightarrow> string option \<Rightarrow> nat \<Rightarrow> 'a state \<Rightarrow> 'a state" where
  "fetchData_request i k currentRequestId s =
     (let requestPromise = length (promises s);
          s1 = s\<lparr>promises := promises s @ [None],
                 calls := calls s @ [\<lparr>inv_hook = i, inv_cacheKey = k,
                   inv_requestId = currentRequestId, inv_promise = requestPromise\<rparr>]\<rparr>;
          s2 = (case truthy k of
                  None \<Rightarrow> s1
                | Some key \<Rightarrow>
                    (let newCacheEntry = \<lparr>promise = Some requestPromise, status = Pending,
                           entry_data = None, entry_error = None\<rparr>
                     in setCacheEntryStatus i newCacheEntry (cache_set key newCacheEntry s1)))
      in await requestPromise (FetchData_await i k currentRequestId requestPromise) s2)"

text \<open>Lines 93 to 112, then the request.\<close>

definition fetchData :: "nat \<Rightarrow> string option \<Rightarrow> nat \<Rightarrow> 'a state \<Rightarrow> 'a state" where
  "fetchData i k currentRequestId s =
     (let s1 = setError i None (setIsLoading i True s) in
      case truthy k of
        None \<Rightarrow> fetchData_request i k currentRequestId s1
      | Some key \<Rightarrow>
          (case asyncDataCache s1 key of
             None \<Rightarrow> fetchData_request i k currentRequestId s1
           | Some cached \<Rightarrow>
               if status cached = Pending
                  \<and> promise (cacheEntryStatus (hooks s1 ! i)) = promise cached
               then s1
               else if status cached = Resolved then
                 setError i None (setIsLoading i False (setData i (entry_data cached) s1))
               else fetchData_request i k currentRequestId s1))"

text \<open>Lines 131 to 146: the rest of the \<^verbatim>\<open>try\<close> block, after the promise fulfilled.\<close>

definition fetchData_try ::
  "nat \<Rightarrow> string option \<Rightarrow> nat \<Rightarrow> nat \<Rightarrow> 'a option \<Rightarrow> 'a state \<Rightarrow> 'a state \<times> js_value option" where
  "fetchData_try i k currentRequestId requestPromise result s =
     (if currentRequestId = latestRequestId (hooks s ! i) then
        (let s1 = setError i None (setData i result s) in
         case truthy k of
           None \<Rightarrow> (s1, None)
         | Some key \<Rightarrow>
             (let updatedCacheEntry = \<lparr>promise = Some requestPromise, status = Resolved,
                    entry_data = result, entry_error = None\<rparr>;
                  s2 = setCacheEntryStatus i updatedCacheEntry (cache_set key updatedCacheEntry s1)
              in notifySubscribers (subscribers s2) invoke key s2))
      else (s, None))"

text \<open>
  Lines 147 to 164: the \<^verbatim>\<open>catch\<close> block.  When \<^verbatim>\<open>String(err)\<close> throws, the block
  is left at line 150, before any setter is called.
\<close>

definition fetchData_catch ::
  "nat \<Rightarrow> string option \<Rightarrow> nat \<Rightarrow> js_value \<Rightarrow> 'a state \<Rightarrow> 'a state \<times> js_value option" where
  "fetchData_catch i k currentRequestId err s =
     (if currentRequestId = latestRequestId (hooks s ! i) then
        (case errorToSet err of
           Inl thrown \<Rightarrow> (s, Some thrown)
         | Inr errorObject \<Rightarrow>
            (let s1 = setData i None (setError i (Some errorObject) s) in
             case truthy k of
               None \<Rightarrow> (s1, None)
             | Some key \<Rightarrow>
                 (let updatedCacheEntry = \<lparr>promise = None, status = Rejected,
                        entry_data = None, entry_error = Some errorObject\<rparr>;
                      s2 = setCacheEntryStatus i updatedCacheEntry
                             (cache_set key updatedCacheEntry s1)
                  in notifySubscribers (subscribers s2) invoke key s2)))
      else (s, None))"

text \<open>Lines 165 to 170: the \<^verbatim>\<open>finally\<close> block.\<close>

definition fetchData_finally :: "nat \<Rightarrow> nat \<Rightarrow> 'a state \<Rightarrow> 'a state" where
  "fetchData_finally i currentRequestId s =
     (if currentRequestId = latestRequestId (hooks s ! i) then setIsLoading i False s else s)"

text \<open>
  What \<^verbatim>\<open>fetchData\<close> does once the awaited promise has settled.  The second
  component is the exception that leaves the function (the rejection of the promise
  \<^verbatim>\<open>fetchData\<close> returned, which no caller handles).
\<close>

definition fetchData_settled ::
  "nat \<Rightarrow> string option \<Rightarrow> nat \<Rightarrow> nat \<Rightarrow> 'a outcome \<Rightarrow> 'a state \<Rightarrow> 'a state \<times> js_value option" where
  "fetchData_settled i k currentRequestId requestPromise out s =
     (let (s1, thrown) =
            (case out of
               Fulfilled result \<Rightarrow>
                 (case fetchData_try i k currentRequestId requestPromise result s of
                    (s', None) \<Rightarrow> (s', None)
                  | (s', Some err) \<Rightarrow> fetchData_catch i k currentRequestId err s')
             | Rejects err \<Rightarrow> fetchData_catch i k currentRequestId err s)
      in (fetchData_finally i currentRequestId s1, thrown))"

section \<open>The effect\<close>

text \<open>
  Lines 194 to 210: the continuation of \<^verbatim>\<open>initializeFetch\<close> after
  \<^verbatim>\<open>await cached.promise\<close>.
\<close>

definition run_is_current :: "effect_run \<Rightarrow> 'a state \<Rightarrow> bool" where
  "run_is_current eff s =
     (\<not> cleanupCalled (hooks s ! eff_hook eff) (eff_requestId eff)
      \<and> eff_requestId eff = latestRequestId (hooks s ! eff_hook eff))"

definition initializeFetch_settled ::
  "effect_run \<Rightarrow> 'a outcome \<Rightarrow> 'a state \<Rightarrow> 'a state \<times> js_value option" where
  "initializeFetch_settled eff out s =
     (let i = eff_hook eff;
          (s1, thrown) =
            (case out of
               Fulfilled result \<Rightarrow>
                 (if run_is_current eff s then setError i None (setData i result s) else s, None)
             | Rejects err \<Rightarrow>
                 if run_is_current eff s then
                   (case errorToSet err of
                      Inl thrown \<Rightarrow> (s, Some thrown)
                    | Inr errorObject \<Rightarrow>
                        (setData i None (setError i (Some errorObject) s), None))
                 else (s, None))
      in (if run_is_current eff s1 then setIsLoading i False s1 else s1, thrown))"

text \<open>
  Lines 177 to 220, up to the first suspension.  The second component is the value
  an \<^verbatim>\<open>await\<close> finds at once: \<^verbatim>\<open>await null\<close>, or a promise that has settled
  already; the continuation then runs as a microtask after the effect's
  synchronous code.
\<close>

definition initializeFetch :: "effect_run \<Rightarrow> 'a state \<Rightarrow> 'a state \<times> 'a outcome option" where
  "initializeFetch eff s0 =
     (let i = eff_hook eff;
          currentRequestId = eff_requestId eff;
          s = update_hook i (\<lambda>h. h\<lparr>latestRequestId := currentRequestId\<rparr>) s0
      in case truthy (eff_cacheKey eff) of
           None \<Rightarrow> (fetchData i (eff_cacheKey eff) currentRequestId s, None)
         | Some key \<Rightarrow>
             (case asyncDataCache s key of
                None \<Rightarrow> (fetchData i (eff_cacheKey eff) currentRequestId s, None)
              | Some cached \<Rightarrow>
                  if status cached = Resolved then
                    (if \<not> cleanupCalled (hooks s ! i) currentRequestId
                     then (setError i None (setIsLoading i False (setData i (entry_data cached) s)), None)
                     else (s, None))
                  else if status cached = Pending
                          \<and> promise (cacheEntryStatus (hooks s ! i)) = promise cached
                  then
                    (let s1 = setIsLoading i True s in
                     case promise cached of
                       None \<Rightarrow> (s1, Some (Fulfilled None))
                     | Some p \<Rightarrow>
                         if p < length (promises s1) then
                           (case promises s1 ! p of
                              None \<Rightarrow> (await p (InitializeFetch_await eff) s1, None)
                            | Some out \<Rightarrow> (s1, Some out))
                         else (await p (InitializeFetch_await eff) s1, None))
                  else (fetchData i (eff_cacheKey eff) currentRequestId s, None)))"

text \<open>
  Resuming suspended code with the outcome of the promise it awaits.  Each piece
  runs as a microtask of its own; an exception that leaves it rejects the promise
  of its async function, which nothing handles.
\<close>

fun resume :: "cont \<Rightarrow> 'a outcome \<Rightarrow> 'a state \<Rightarrow> 'a state \<times> js_value option" where
  "resume (FetchData_await i k currentRequestId requestPromise) out s =
     fetchData_settled i k currentRequestId requestPromise out s"
| "resume (InitializeFetch_await eff) out s = initializeFetch_settled eff out s"

definition microtask :: "cont \<Rightarrow> 'a outcome \<Rightarrow> 'a state \<Rightarrow> 'a state" where
  "microtask c out s =
     (case resume c out s of
        (s', None) \<Rightarrow> s'
      | (s', Some thrown) \<Rightarrow>
          s'\<lparr>unhandledRejections := unhandledRejections s' @ [(cont_hook c, thrown)]\<rparr>)"

text \<open>Lines 174 to 245: one run of the effect of instance \<open>i\<close>.\<close>

definition useEffect :: "nat \<Rightarrow> 'a state \<Rightarrow> 'a state" where
  "useEffect i s =
     (let eff = \<lparr>eff_hook = i, eff_requestId = latestRequestId (hooks s ! i) + 1,
                 eff_cacheKey = cacheKey (hooks s ! i)\<rparr>;
          s1 = update_hook i (\<lambda>h. h\<lparr>cleanupCalled := (cleanupCalled h)(eff_requestId eff := False)\<rparr>) s;
          (s2, due) = initializeFetch eff s1;
          s3 = (case truthy (eff_cacheKey eff) of
                  None \<Rightarrow> s2
                | Some key \<Rightarrow> s2\<lparr>subscribers := subscribe key eff (subscribers s2)\<rparr>);
          s4 = update_hook i (\<lambda>h. h\<lparr>destroy := Some eff\<rparr>) s3
      in case due of None \<Rightarrow> s4 | Some out \<Rightarrow> microtask (InitializeFetch_await eff) out s4)"

text \<open>Lines 246 to 256: the cleanup function the effect returns.\<close>

definition cleanup :: "effect_run \<Rightarrow> 'a state \<Rightarrow> 'a state" where
  "cleanup eff s =
     (let s1 = update_hook (eff_hook eff)
                 (\<lambda>h. h\<lparr>cleanupCalled := (cleanupCalled h)(eff_requestId eff := True),
                        latestRequestId := latestRequestId h + 1\<rparr>) s
      in case truthy (eff_cacheKey eff) of
           None \<Rightarrow> s1
         | Some key \<Rightarrow> s1\<lparr>subscribers := unsubscribe key eff (subscribers s1)\<rparr>)"

text \<open>Lines 260 to 274.\<close>

definition refetch :: "nat \<Rightarrow> 'a state \<Rightarrow> 'a state" where
  "refetch i s =
     (let k = cacheKey (hooks s ! i);
          currentRequestId = latestRequestId (hooks s ! i) + 1;
          s1 = update_hook i (\<lambda>h. h\<lparr>latestRequestId := currentRequestId\<rparr>) s;
          s2 = (case truthy k of
                  None \<Rightarrow> s1
                | Some key \<Rightarrow> setCacheEntryStatus i idleEntry (cache_delete key s1))
      in fetchData i k currentRequestId s2)"

section \<open>Events\<close>

text \<open>
  What the host and the producers do: mount a new instance, render an instance
  again with changed inputs (the effect's cleanup runs, then the effect), unmount
  it (the cleanup runs and React forgets the instance), call its \<^verbatim>\<open>refetch\<close>
  (which the caller can still do after the unmount), settle a pending promise.
  The reactions to a settlement run in the order the \<^verbatim>\<open>await\<close>s were reached.
\<close>

datatype 'a event =
    Mount "string option"
  | Rerender nat "string option"
  | Unmount nat
  | Refetch nat
  | Settle nat "'a outcome"

fun reactions :: "cont list \<Rightarrow> 'a outcome \<Rightarrow> 'a state \<Rightarrow> 'a state" where
  "reactions [] out s = s"
| "reactions (c # cs) out s = reactions cs out (microtask c out s)"

definition settle :: "nat \<Rightarrow> 'a outcome \<Rightarrow> 'a state \<Rightarrow> 'a state" where
  "settle p out s =
     (if p < length (promises s) \<and> promises s ! p = None then
        (let waiting = map snd (filter (\<lambda>pc. fst pc = p) (awaiting s));
             s1 = s\<lparr>promises := (promises s)[p := Some out],
                    awaiting := filter (\<lambda>pc. fst pc \<noteq> p) (awaiting s)\<rparr>
         in reactions waiting out s1)
      else s)"

fun step :: "'a state \<Rightarrow> 'a event \<Rightarrow> 'a state" where
  "step s (Mount k) = useEffect (length (hooks s)) (s\<lparr>hooks := hooks s @ [initial_hook k]\<rparr>)"
| "step s (Rerender i k) =
     (if i < length (hooks s) then
        (case destroy (hooks s ! i) of
           None \<Rightarrow> s
         | Some eff \<Rightarrow> useEffect i (update_hook i (\<lambda>h. h\<lparr>cacheKey := k\<rparr>) (cleanup eff s)))
      else s)"
| "step s (Unmount i) =
     (if i < length (hooks s) then
        (case destroy (hooks s ! i) of
           None \<Rightarrow> s
         | Some eff \<Rightarrow>
             update_hook i (\<lambda>h. h\<lparr>destroy := None, mounted := False\<rparr>) (cleanup eff s))
      else s)"
| "step s (Refetch i) = (if i < length (hooks s) then refetch i s else s)"
| "step s (Settle p out) = settle p out s"

fun run :: "'a state \<Rightarrow> 'a event list \<Rightarrow> 'a state" where
  "run s [] = s"
| "run s (e # es) = run (step s e) es"

section \<open>Predicates of the proofs\<close>

text \<open>
  What the hook returns to the component: \<^verbatim>\<open>{ data, isLoading, error }\<close>.
\<close>

definition exposed :: "'a hook \<Rightarrow> 'a option \<times> bool \<times> js_error option" where
  "exposed h = (data h, isLoading h, error h)"

text \<open>
  The parts of an instance that a settlement never writes: its refs and closure
  variables and, once it is unmounted, its state variables.  Two states are in the
  relation \<open>quiet\<close> when they differ only in what the code after an \<^verbatim>\<open>await\<close> may
  write: the cache, \<^verbatim>\<open>cacheEntryStatus\<close> and the state variables of mounted
  instances, where \<^verbatim>\<open>isLoading\<close> is only ever set to false.
\<close>

definition refs ::
  "'a hook \<Rightarrow> nat \<times> string option \<times> (nat \<Rightarrow> bool) \<times> effect_run option \<times> bool
     \<times> ('a option \<times> bool \<times> js_error option) option" where
  "refs h = (latestRequestId h, cacheKey h, cleanupCalled h, destroy h, mounted h,
             if mounted h then None else Some (exposed h))"

definition quiet :: "'a state \<Rightarrow> 'a state \<Rightarrow> bool" where
  "quiet s s' = (subscribers s' = subscribers s \<and> promises s' = promises s
     \<and> awaiting s' = awaiting s \<and> calls s' = calls s
     \<and> map refs (hooks s') = map refs (hooks s)
     \<and> (\<forall>i. isLoading (hooks s' ! i) \<longrightarrow> isLoading (hooks s ! i)))"

text \<open>
  The test a suspended piece of code makes before it writes: lines 132, 149 and
  166 for \<^verbatim>\<open>fetchData\<close>, lines 194, 201 and 207 for \<^verbatim>\<open>initializeFetch\<close>.
\<close>

fun current :: "cont \<Rightarrow> 'a state \<Rightarrow> bool" where
  "current (FetchData_await i k currentRequestId requestPromise) s =
     (currentRequestId = latestRequestId (hooks s ! i))"
| "current (InitializeFetch_await eff) s = run_is_current eff s"

text \<open>
  What a promise that settles with a given outcome makes an instance show, in
  \<^verbatim>\<open>data\<close> and \<^verbatim>\<open>error\<close>, when the hook can handle the outcome: the value, or
  the \<^verbatim>\<open>Error\<close> made of the rejection.
\<close>

fun shown :: "'a outcome \<Rightarrow> ('a option \<times> js_error option) option" where
  "shown (Fulfilled v) = Some (v, None)"
| "shown (Rejects err) = (case errorToSet err of Inl thrown \<Rightarrow> None | Inr e \<Rightarrow> Some (None, Some e))"

text \<open>The shapes of the entries the code stores in the cache.\<close>

definition entry_ok :: "'a CacheEntry \<Rightarrow> bool" where
  "entry_ok e =
     (case status e of
        Idle \<Rightarrow> False
      | Pending \<Rightarrow> promise e \<noteq> None \<and> entry_data e = None \<and> entry_error e = None
      | Resolved \<Rightarrow> promise e \<noteq> None \<and> entry_error e = None
      | Rejected \<Rightarrow> promise e = None \<and> entry_data e = None \<and> entry_error e \<noteq> None)"

definition cache_ok :: "'a state \<Rightarrow> bool" where
  "cache_ok s = (\<forall>k e. asyncDataCache s k = Some e \<longrightarrow> entry_ok e)"

definition absent :: "nat \<Rightarrow> 'a state \<Rightarrow> bool" where
  "absent i s = (\<forall>k cbs cb. subscribers s k = Some cbs \<longrightarrow> cb \<in> set cbs \<longrightarrow> eff_hook cb \<noteq> i)"

text \<open>
  What the synchronous code that starts a fetch for instance \<open>i\<close> with request id
  \<open>r\<close> may change; and the facts that hold in every state the events can reach: a
  callback is registered under the key of its closure, by the effect run whose
  cleanup the instance still holds, and no suspended code carries a request id
  beyond its instance's counter.
\<close>

definition launched :: "nat \<Rightarrow> nat \<Rightarrow> 'a state \<Rightarrow> 'a state \<Rightarrow> bool" where
  "launched i r s s' =
     (subscribers s' = subscribers s \<and> unhandledRejections s' = unhandledRejections s
      \<and> length (hooks s') = length (hooks s)
      \<and> (\<forall>j. j \<noteq> i \<longrightarrow> hooks s' ! j = hooks s ! j)
      \<and> refs (hooks s' ! i) = refs (hooks s ! i)
      \<and> (\<forall>pc \<in> set (awaiting s'). pc \<in> set (awaiting s)
             \<or> (cont_hook (snd pc) = i \<and> cont_id (snd pc) = r))
      \<and> (cache_ok s \<longrightarrow> cache_ok s'))"

definition subs_ok :: "'a state \<Rightarrow> bool" where
  "subs_ok s = (\<forall>k cbs cb. subscribers s k = Some cbs \<longrightarrow> cb \<in> set cbs \<longrightarrow>
       eff_cacheKey cb = Some k \<and> k \<noteq> [] \<and> eff_hook cb < length (hooks s)
       \<and> destroy (hooks s ! eff_hook cb) = Some cb)"

definition destroy_ok :: "'a state \<Rightarrow> bool" where
  "destroy_ok s = (\<forall>i eff. i < length (hooks s) \<longrightarrow> destroy (hooks s ! i) = Some eff \<longrightarrow> eff_hook eff = i)"

definition awaiting_ok :: "'a state \<Rightarrow> bool" where
  "awaiting_ok s = (\<forall>pc \<in> set (awaiting s). cont_hook (snd pc) < length (hooks s)
       \<and> cont_id (snd pc) \<le> latestRequestId (hooks s ! cont_hook (snd pc)))"

definition consistent :: "'a state \<Rightarrow> bool" where
  "consistent s = (subs_ok s \<and> destroy_ok s \<and> awaiting_ok s \<and> cache_ok s)"

text \<open>
  The invariant of cache entries in the words of the specification: exactly one of
  pending handle, value and failure is populated, the one the status names.
\<close>

definition spec_entry_invariant :: "'a CacheEntry \<Rightarrow> bool" where
  "spec_entry_invariant e =
     ((status e = Pending \<and> promise e \<noteq> None \<and> entry_data e = None \<and> entry_error e = None)
      \<or> (status e = Resolved \<and> promise e = None \<and> entry_data e \<noteq> None \<and> entry_error e = None)
      \<or> (status e = Rejected \<and> promise e = None \<and> entry_data e = None \<and> entry_error e \<noteq> None))"

text \<open>
  How an instance changes over time, whatever happens: its request counter never
  goes down, and once it is unmounted it stays unmounted and shows what it showed.
  The exceptions that escaped from the code of one instance.  What an operation
  of instance \<open>j\<close> may change outside the cache.  An instance that has been torn
  down: no callback of its own is registered and every suspended piece of its code
  carries a request id below its counter.  The events that act on a given
  instance.
\<close>

definition evolves :: "'a hook \<Rightarrow> 'a hook \<Rightarrow> bool" where
  "evolves h h' = (latestRequestId h \<le> latestRequestId h'
     \<and> (\<not> mounted h \<longrightarrow> \<not> mounted h' \<and> exposed h' = exposed h))"

definition progress :: "'a state \<Rightarrow> 'a state \<Rightarrow> bool" where
  "progress s s' = (\<forall>i < length (hooks s).
       i < length (hooks s') \<and> evolves (hooks s ! i) (hooks s' ! i))"

definition rejections_of :: "nat \<Rightarrow> 'a state \<Rightarrow> js_value list" where
  "rejections_of i s = map snd (filter (\<lambda>e. fst e = i) (unhandledRejections s))"

definition touches :: "nat \<Rightarrow> 'a state \<Rightarrow> 'a state \<Rightarrow> bool" where
  "touches j s s' =
     (length (hooks s') = length (hooks s)
      \<and> (\<forall>i. i \<noteq> j \<longrightarrow> hooks s' ! i = hooks s ! i \<and> rejections_of i s' = rejections_of i s)
      \<and> (j < length (hooks s) \<longrightarrow> evolves (hooks s ! j) (hooks s' ! j))
      \<and> (\<forall>pc \<in> set (awaiting s'). pc \<in> set (awaiting s) \<or> cont_hook (snd pc) = j)
      \<and> (\<forall>k cbs cb. subscribers s' k = Some cbs \<longrightarrow> cb \<in> set cbs \<longrightarrow>
            eff_hook cb = j \<or> (\<exists>cbs0. subscribers s k = Some cbs0 \<and> cb \<in> set cbs0)))"





text \<open>
  The state before anything has settled: every instance shows its initial values,
  every cache entry is pending on a promise that exists, and no promise has settled.
\<close>

fun settles :: "'a event \<Rightarrow> bool" where
  "settles (Settle p out) = True"
| "settles e = False"

definition initial_exposed :: "'a hook \<Rightarrow> bool" where
  "initial_exposed h = (data h = None \<and> isLoading h = True \<and> error h = None)"

definition pristine :: "'a state \<Rightarrow> bool" where
  "pristine s =
     ((\<forall>h \<in> set (hooks s). initial_exposed h)
      \<and> (\<forall>k e. asyncDataCache s k = Some e \<longrightarrow>
            status e = Pending \<and> (\<exists>p. promise e = Some p \<and> p < length (promises s)))
      \<and> (\<forall>p < length (promises s). promises s ! p = None))"

text \<open>
  Callbacks for exercising \<^verbatim>\<open>notifySubscribers\<close> on its own: a callback records that
  it was called and then throws what \<open>throws\<close> gives for it, if anything.
\<close>

definition recording :: "('c \<Rightarrow> 'x option) \<Rightarrow> 'c \<Rightarrow> 'c list \<Rightarrow> 'c list \<times> 'x option" where
  "recording throws callback invoked = (invoked @ [callback], throws callback)"

definition first_throws :: "nat \<Rightarrow> js_value option" where
  "first_throws callback = (if callback = 1 then Some (JString ''boom'') else None)"

definition two_callbacks :: "string \<rightharpoonup> nat list" where
  "two_callbacks = [''k'' \<mapsto> [1, 2]]"

section \<open>Basic facts\<close>

lemma update_hook_proj [simp]:
  "asyncDataCache (update_hook i f s) = asyncDataCache s"
  "subscribers (update_hook i f s) = subscribers s"
  "promises (update_hook i f s) = promises s"
  "awaiting (update_hook i f s) = awaiting s"
  "calls (update_hook i f s) = calls s"
  "unhandledRejections (update_hook i f s) = unhandledRejections s"
  "hooks (update_hook i f s) = (hooks s)[i := f (hooks s ! i)]"
  by (simp_all add: update_hook_def)

lemma cache_set_proj [simp]:
  "asyncDataCache (cache_set k e s) = (asyncDataCache s)(k \<mapsto> e)"
  "subscribers (cache_set k e s) = subscribers s"
  "promises (cache_set k e s) = promises s"
  "awaiting (cache_set k e s) = awaiting s"
  "calls (cache_set k e s) = calls s"
  "unhandledRejections (cache_set k e s) = unhandledRejections s"
  "hooks (cache_set k e s) = hooks s"
  by (simp_all add: cache_set_def)

lemma cache_delete_proj [simp]:
  "asyncDataCache (cache_delete k s) = (asyncDataCache s)(k := None)"
  "subscribers (cache_delete k s) = subscribers s"
  "promises (cache_delete k s) = promises s"
  "awaiting (cache_delete k s) = awaiting s"
  "calls (cache_delete k s) = calls s"
  "unhandledRejections (cache_delete k s) = unhandledRejections s"
  "hooks (cache_delete k s) = hooks s"
  by (simp_all add: cache_delete_def)

lemma await_proj [simp]:
  "asyncDataCache (await p c s) = asyncDataCache s"
  "subscribers (await p c s) = subscribers s"
  "promises (await p c s) = promises s"
  "awaiting (await p c s) = awaiting s @ [(p, c)]"
  "calls (await p c s) = calls s"
  "unhandledRejections (await p c s) = unhandledRejections s"
  "hooks (await p c s) = hooks s"
  by (simp_all add: await_def)

lemmas setters = setData_def setIsLoading_def setError_def setCacheEntryStatus_def setState_def

lemmas effect_defs = useEffect_def initializeFetch_def initializeFetch_settled_def
  run_is_current_def cleanup_def refetch_def fetchData_def fetchData_request_def

lemmas settle_defs = settle_def fetchData_settled_def fetchData_try_def fetchData_catch_def
  fetchData_finally_def notifySubscribers_def invoke_def handleCacheUpdate_def

lemmas start_defs = init_def initial_hook_def idleEntry_def truthy_def subscribe_def
  unsubscribe_def

lemma update_hook_twice: "update_hook i f (update_hook i g s) = update_hook i (\<lambda>h. f (g h)) s"
  by (cases "i < length (hooks s)") (simp_all add: update_hook_def list_update_beyond)

lemma setState_twice:
  assumes "\<And>h. mounted (g h) = mounted h"
  shows "setState i f (setState i g s) = setState i (\<lambda>h. f (g h)) s"
  unfolding setState_def update_hook_twice
  by (rule arg_cong[where f = "\<lambda>F. update_hook i F s"]) (auto simp: fun_eq_iff assms)

lemmas set_defs = setData_def setIsLoading_def setError_def

lemma setState_proj [simp]:
  "asyncDataCache (setState i f s) = asyncDataCache s"
  "subscribers (setState i f s) = subscribers s"
  "promises (setState i f s) = promises s"
  "awaiting (setState i f s) = awaiting s"
  "calls (setState i f s) = calls s"
  "unhandledRejections (setState i f s) = unhandledRejections s"
  "length (hooks (setState i f s)) = length (hooks s)"
  by (simp_all add: setState_def)

lemma setState_hooks:
  "hooks (setState i f s) = (hooks s)[i := (if mounted (hooks s ! i) then f (hooks s ! i) else hooks s ! i)]"
  by (simp add: setState_def)

lemma nth_list_update_if:
  "(xs[i := v]) ! j = (if j = i \<and> i < length xs then v else xs ! j)"
  by (cases "i < length xs") (auto simp: list_update_beyond)

section \<open>The subscription callback\<close>

lemma quiet_refl [simp]: "quiet s s"
  by (simp add: quiet_def)

lemma quiet_trans: "quiet s s' \<Longrightarrow> quiet s' s'' \<Longrightarrow> quiet s s''"
  unfolding quiet_def by (intro conjI; (simp; fail | blast))

lemma map_update_same: "(\<And>h. g (f h) = g h) \<Longrightarrow> map g (xs[i := f (xs ! i)]) = map g xs"
  by (simp add: map_update list_update_same_conv[THEN iffD2] nth_list_update_if list_eq_iff_nth_eq)

lemma quiet_update_hook:
  "(\<And>h. refs (f h) = refs h) \<Longrightarrow> (\<And>h. isLoading (f h) \<Longrightarrow> isLoading h) \<Longrightarrow>
     quiet s (update_hook i f s)"
  by (simp add: quiet_def map_update_same nth_list_update_if)

lemma quiet_cache_set: "quiet s (cache_set k e s)"
  by (simp add: quiet_def)

lemma quiet_length: "quiet s s' \<Longrightarrow> length (hooks s') = length (hooks s)"
  unfolding quiet_def by (metis length_map)

lemma quiet_refs: "quiet s s' \<Longrightarrow> i < length (hooks s) \<Longrightarrow> refs (hooks s' ! i) = refs (hooks s ! i)"
  unfolding quiet_def by (metis length_map nth_map)

lemma quiet_latest: "quiet s s' \<Longrightarrow> i < length (hooks s) \<Longrightarrow> latestRequestId (hooks s' ! i) = latestRequestId (hooks s ! i)"
  using quiet_refs[of s s' i] by (simp add: refs_def)

lemma quiet_destroy: "quiet s s' \<Longrightarrow> i < length (hooks s) \<Longrightarrow> destroy (hooks s' ! i) = destroy (hooks s ! i)"
  using quiet_refs[of s s' i] by (simp add: refs_def)

lemma quiet_cleanupCalled: "quiet s s' \<Longrightarrow> i < length (hooks s) \<Longrightarrow> cleanupCalled (hooks s' ! i) = cleanupCalled (hooks s ! i)"
  using quiet_refs[of s s' i] by (simp add: refs_def)

lemma quiet_setters [simp]:
  "quiet s (setData i v s)" "quiet s (setIsLoading i False s)" "quiet s (setError i e s)"
  "quiet s (setCacheEntryStatus i ce s)"
  by (auto simp: setters refs_def exposed_def split: if_splits intro!: quiet_update_hook)

lemma quiet_mounted: "quiet s s' \<Longrightarrow> i < length (hooks s) \<Longrightarrow> mounted (hooks s' ! i) = mounted (hooks s ! i)"
  using quiet_refs[of s s' i] by (simp add: refs_def)

lemma quiet_not_loading: "quiet s s' \<Longrightarrow> \<not> isLoading (hooks s ! i) \<Longrightarrow> \<not> isLoading (hooks s' ! i)"
  unfolding quiet_def by blast

lemma quiet_then:
  "quiet s t \<Longrightarrow> quiet s (setData i v t)"
  "quiet s t \<Longrightarrow> quiet s (setIsLoading i False t)"
  "quiet s t \<Longrightarrow> quiet s (setError i e t)"
  "quiet s t \<Longrightarrow> quiet s (setCacheEntryStatus i ce t)"
  "quiet s t \<Longrightarrow> quiet s (cache_set k ce t)"
  by (erule quiet_trans, simp add: quiet_cache_set)+

lemma handleCacheUpdate_quiet: "quiet s (handleCacheUpdate eff s)"
  unfolding handleCacheUpdate_def Let_def
  by (auto split: option.splits intro!: quiet_then)

lemma handleCacheUpdate_cache [simp]: "asyncDataCache (handleCacheUpdate eff s) = asyncDataCache s"
  unfolding handleCacheUpdate_def Let_def
  by (auto split: option.splits simp: setters)

lemma setters_unhandled [simp]:
  "unhandledRejections (setData i v s) = unhandledRejections s"
  "unhandledRejections (setIsLoading i b s) = unhandledRejections s"
  "unhandledRejections (setError i e s) = unhandledRejections s"
  "unhandledRejections (setCacheEntryStatus i ce s) = unhandledRejections s"
  by (simp_all add: setters)

lemma handleCacheUpdate_unhandled [simp]:
  "unhandledRejections (handleCacheUpdate eff s) = unhandledRejections s"
  unfolding handleCacheUpdate_def Let_def
  by (auto split: option.splits)

lemma handleCacheUpdate_other: "eff_hook eff \<noteq> i \<Longrightarrow> hooks (handleCacheUpdate eff s) ! i = hooks s ! i"
  unfolding handleCacheUpdate_def Let_def
  by (auto split: option.splits simp: setters)

lemma forEach_invoke: "forEach invoke cbs s = (fold handleCacheUpdate cbs s, None)"
  by (induction cbs arbitrary: s) (simp_all add: invoke_def)

lemma fold_handle_quiet: "quiet s (fold handleCacheUpdate cbs s)"
proof (induction cbs arbitrary: s)
  case Nil
  show ?case by simp
next
  case (Cons cb cbs)
  show ?case using quiet_trans[OF handleCacheUpdate_quiet Cons.IH] by simp
qed

lemma fold_handle_cache [simp]: "asyncDataCache (fold handleCacheUpdate cbs s) = asyncDataCache s"
  by (induction cbs arbitrary: s) simp_all

lemma fold_handle_unhandled [simp]:
  "unhandledRejections (fold handleCacheUpdate cbs s) = unhandledRejections s"
  by (induction cbs arbitrary: s) simp_all


lemma notify_invoke:
  "notifySubscribers subs invoke k s = ((case subs k of None \<Rightarrow> s | Some cbs \<Rightarrow> fold handleCacheUpdate cbs s), None)"
  by (simp add: notifySubscribers_def forEach_invoke split: option.splits)

section \<open>The code after an await\<close>


lemma fetchData_try_no_throw [simp]: "snd (fetchData_try i k r p v s) = None"
  by (simp add: fetchData_try_def notify_invoke Let_def split: option.splits)

lemma fetchData_catch_throw:
  "snd (fetchData_catch i k r err s) =
     (if r = latestRequestId (hooks s ! i)
      then (case errorToSet err of Inl thrown \<Rightarrow> Some thrown | Inr e \<Rightarrow> None) else None)"
  by (simp add: fetchData_catch_def notify_invoke Let_def split: option.splits sum.splits)

lemma fetchData_try_quiet: "quiet s (fst (fetchData_try i k r p v s))"
  by (auto simp add: fetchData_try_def notify_invoke Let_def split: option.splits
      intro!: quiet_then quiet_trans[OF _ fold_handle_quiet])

lemma fetchData_catch_quiet: "quiet s (fst (fetchData_catch i k r err s))"
  by (auto simp add: fetchData_catch_def notify_invoke Let_def split: option.splits sum.splits
      intro!: quiet_then quiet_trans[OF _ fold_handle_quiet])

lemma fetchData_finally_quiet: "quiet s (fetchData_finally i r s)"
  by (simp add: fetchData_finally_def)

lemma fetchData_settled_eq:
  "fetchData_settled i k r p out s =
     (fetchData_finally i r (case out of Fulfilled v \<Rightarrow> fst (fetchData_try i k r p v s)
                                     | Rejects err \<Rightarrow> fst (fetchData_catch i k r err s)),
      case out of Fulfilled v \<Rightarrow> None | Rejects err \<Rightarrow> snd (fetchData_catch i k r err s))"
proof (cases out)
  case (Fulfilled v)
  obtain s' where "fetchData_try i k r p v s = (s', None)"
    using fetchData_try_no_throw[of i k r p v s] by (cases "fetchData_try i k r p v s") auto
  then show ?thesis using Fulfilled by (simp add: fetchData_settled_def)
next
  case (Rejects err)
  then show ?thesis by (simp add: fetchData_settled_def split_beta)
qed

lemma fetchData_settled_throw:
  "snd (fetchData_settled i k r p out s) =
     (case out of
        Fulfilled v \<Rightarrow> None
      | Rejects err \<Rightarrow>
          if r = latestRequestId (hooks s ! i)
          then (case errorToSet err of Inl thrown \<Rightarrow> Some thrown | Inr e \<Rightarrow> None) else None)"
  by (simp add: fetchData_settled_eq fetchData_catch_throw split: outcome.splits)

lemma fetchData_settled_quiet: "quiet s (fst (fetchData_settled i k r p out s))"
  by (auto simp: fetchData_settled_eq split: outcome.splits
      intro: quiet_trans[OF fetchData_try_quiet fetchData_finally_quiet]
             quiet_trans[OF fetchData_catch_quiet fetchData_finally_quiet])

lemma fetchData_settled_stale:
  "r \<noteq> latestRequestId (hooks s ! i) \<Longrightarrow> fetchData_settled i k r p out s = (s, None)"
  by (simp add: fetchData_settled_eq fetchData_try_def fetchData_catch_def fetchData_finally_def
      split: outcome.splits)

lemma initializeFetch_settled_not_current:
  "\<not> run_is_current eff s \<Longrightarrow> initializeFetch_settled eff out s = (s, None)"
  by (cases out) (simp_all add: initializeFetch_settled_def Let_def)

lemma initializeFetch_settled_stale:
  "eff_requestId eff \<noteq> latestRequestId (hooks s ! eff_hook eff) \<Longrightarrow>
     initializeFetch_settled eff out s = (s, None)"
  by (simp add: initializeFetch_settled_not_current run_is_current_def)

lemma initializeFetch_settled_cleaned:
  "cleanupCalled (hooks s ! eff_hook eff) (eff_requestId eff) \<Longrightarrow>
     initializeFetch_settled eff out s = (s, None)"
  by (simp add: initializeFetch_settled_not_current run_is_current_def)

lemma initializeFetch_settled_throw:
  "snd (initializeFetch_settled eff out s) =
     (case out of
        Fulfilled v \<Rightarrow> None
      | Rejects err \<Rightarrow>
          if run_is_current eff s
          then (case errorToSet err of Inl thrown \<Rightarrow> Some thrown | Inr e \<Rightarrow> None) else None)"
  by (simp add: initializeFetch_settled_def Let_def split_beta split: outcome.splits sum.splits)

lemma initializeFetch_settled_quiet: "quiet s (fst (initializeFetch_settled eff out s))"
  by (auto simp add: initializeFetch_settled_def Let_def split_beta
      split: outcome.splits sum.splits intro!: quiet_then)

lemma initializeFetch_settled_cache [simp]:
  "asyncDataCache (fst (initializeFetch_settled eff out s)) = asyncDataCache s"
  by (auto simp add: initializeFetch_settled_def Let_def setters split_beta
      split: outcome.splits sum.splits)


lemma fetchData_settled_unhandled [simp]:
  "unhandledRejections (fst (fetchData_settled i k r p out s)) = unhandledRejections s"
  by (cases out)
     (simp_all add: fetchData_settled_eq fetchData_finally_def fetchData_try_def fetchData_catch_def
        notify_invoke Let_def split: option.splits sum.splits)

lemma initializeFetch_settled_unhandled [simp]:
  "unhandledRejections (fst (initializeFetch_settled eff out s)) = unhandledRejections s"
  by (cases out)
     (simp_all add: initializeFetch_settled_def Let_def split_beta split: sum.splits)

lemma cache_ok_same: "asyncDataCache s' = asyncDataCache s \<Longrightarrow> cache_ok s' = cache_ok s"
  by (simp add: cache_ok_def)

lemma cache_ok_set: "cache_ok s \<Longrightarrow> entry_ok e \<Longrightarrow> asyncDataCache s' = (asyncDataCache s)(k \<mapsto> e) \<Longrightarrow> cache_ok s'"
  by (simp add: cache_ok_def)

lemma fetchData_try_cache:
  "asyncDataCache (fst (fetchData_try i k r p v s)) =
     (if r = latestRequestId (hooks s ! i) then
        (case truthy k of None \<Rightarrow> asyncDataCache s
         | Some key \<Rightarrow> (asyncDataCache s)(key \<mapsto> \<lparr>promise = Some p, status = Resolved,
               entry_data = v, entry_error = None\<rparr>))
      else asyncDataCache s)"
  by (simp add: fetchData_try_def notify_invoke Let_def setters split: option.splits)

lemma fetchData_catch_cache:
  "asyncDataCache (fst (fetchData_catch i k r err s)) =
     (if r = latestRequestId (hooks s ! i) then
        (case errorToSet err of
           Inl thrown \<Rightarrow> asyncDataCache s
         | Inr e \<Rightarrow>
            (case truthy k of None \<Rightarrow> asyncDataCache s
             | Some key \<Rightarrow> (asyncDataCache s)(key \<mapsto> \<lparr>promise = None, status = Rejected,
                   entry_data = None, entry_error = Some e\<rparr>)))
      else asyncDataCache s)"
  by (simp add: fetchData_catch_def notify_invoke Let_def setters split: option.splits sum.splits)

lemma fetchData_finally_cache [simp]: "asyncDataCache (fetchData_finally i r s) = asyncDataCache s"
  by (simp add: fetchData_finally_def setters)

lemma fetchData_settled_cache_ok:
  "cache_ok s \<Longrightarrow> cache_ok (fst (fetchData_settled i k r p out s))"
  by (auto simp add: fetchData_settled_eq fetchData_try_cache fetchData_catch_cache cache_ok_def entry_ok_def
      split: outcome.splits option.splits if_splits sum.splits)





section \<open>De-duplication across instances\<close>

text \<open>
  C1.  The claim: while a fetch for a key is in flight, a second instance that
  mounts with the same key does not call the producer again.  The code tests
  \<^verbatim>\<open>cacheEntryStatus.current.promise === cached.promise\<close>, which only the instance
  that published the pending entry passes; a second instance goes on to
  \<^verbatim>\<open>asyncFunc()\<close>.  After two mounts under one key and no settlement, the log
  holds two producer calls for the key, by two different instances, and both
  promises are still pending.
\<close>

theorem second_instance_invokes_producer_again:
  "map inv_cacheKey (calls (run init [Mount (Some ''k''), Mount (Some ''k'')]))
     = [Some ''k'', Some ''k'']
   \<and> map inv_hook (calls (run init [Mount (Some ''k''), Mount (Some ''k'')])) = [0, 1]
   \<and> promises (run init [Mount (Some ''k''), Mount (Some ''k'')]) = [None, None]"
  by (simp add: start_defs effect_defs setters Let_def)

section \<open>refetch\<close>

text \<open>
  C6.  Every call of \<^verbatim>\<open>refetch()\<close> on an instance calls the producer exactly once:
  the log grows by one call, made by this instance under its key with the next
  request id.  For a keyed instance the entry of the key is deleted first, so the
  entry found afterwards is the pending entry of the new promise, whatever the
  entry was before (a resolved one too); without a key the cache is left alone.
\<close>

theorem refetch_invokes_producer_once:
  assumes "i < length (hooks s)"
  shows "calls (step s (Refetch i)) =
           calls s @ [\<lparr>inv_hook = i, inv_cacheKey = cacheKey (hooks s ! i),
                        inv_requestId = latestRequestId (hooks s ! i) + 1,
                        inv_promise = length (promises s)\<rparr>]
         \<and> asyncDataCache (step s (Refetch i)) =
             (case truthy (cacheKey (hooks s ! i)) of
                None \<Rightarrow> asyncDataCache s
              | Some key \<Rightarrow> (asyncDataCache s)(key \<mapsto>
                  \<lparr>promise = Some (length (promises s)), status = Pending,
                   entry_data = None, entry_error = None\<rparr>))"
  using assms
  by (auto simp add: refetch_def fetchData_def fetchData_request_def Let_def setters
      split: option.splits)

theorem refetch_invokes_producer_once_witness:
  "0 < length (hooks (run init [Mount (Some ''k''), Settle 0 (Fulfilled (Some (5::nat)))]))
   \<and> asyncDataCache (run init [Mount (Some ''k''), Settle 0 (Fulfilled (Some (5::nat)))]) ''k''
       = Some \<lparr>promise = Some 0, status = Resolved, entry_data = Some 5, entry_error = None\<rparr>
   \<and> length (calls (step (run init [Mount (Some ''k''), Settle 0 (Fulfilled (Some (5::nat)))]) (Refetch 0)))
       = length (calls (run init [Mount (Some ''k''), Settle 0 (Fulfilled (Some (5::nat)))])) + 1
   \<and> asyncDataCache (step (run init [Mount (Some ''k''), Settle 0 (Fulfilled (Some (5::nat)))]) (Refetch 0)) ''k''
       = Some \<lparr>promise = Some 1, status = Pending, entry_data = None, entry_error = None\<rparr>"
proof -
  let ?s = "run init [Mount (Some ''k''), Settle 0 (Fulfilled (Some (5::nat)))]"
  have len: "0 < length (hooks ?s)"
    by code_simp
  have before: "asyncDataCache ?s ''k''
       = Some \<lparr>promise = Some 0, status = Resolved, entry_data = Some 5, entry_error = None\<rparr>"
    by code_simp
  have p: "length (promises ?s) = 1" and k: "truthy (cacheKey (hooks ?s ! 0)) = Some ''k''"
    by code_simp+
  from refetch_invokes_producer_once[OF len]
  have "length (calls (step ?s (Refetch 0))) = length (calls ?s) + 1"
    and "asyncDataCache (step ?s (Refetch 0)) ''k''
       = Some \<lparr>promise = Some 1, status = Pending, entry_data = None, entry_error = None\<rparr>"
    by (simp_all only: k p option.case length_append list.size fun_upd_same)
  with len before show ?thesis by blast
qed

section \<open>notifySubscribers\<close>

lemma forEach_recording:
  "forEach (recording throws) callbacks invoked =
     (invoked @ takeWhile (\<lambda>c. throws c = None) callbacks
              @ take 1 (dropWhile (\<lambda>c. throws c = None) callbacks),
      (case dropWhile (\<lambda>c. throws c = None) callbacks of [] \<Rightarrow> None | c # rest \<Rightarrow> throws c))"
proof (induction callbacks arbitrary: invoked)
  case Nil
  show ?case by simp
next
  case (Cons c callbacks)
  show ?case
  proof (cases "throws c")
    case None
    then show ?thesis using Cons.IH[of "invoked @ [c]"] by (simp add: recording_def)
  next
    case (Some x)
    then show ?thesis by (simp add: recording_def)
  qed
qed

text \<open>
  C4, as amended.  \<^verbatim>\<open>notifySubscribers\<close> calls the callbacks registered for the key
  in insertion order and stops at the first one that throws: the callbacks called
  are those before the first thrower and the thrower itself, and its exception
  leaves \<^verbatim>\<open>notifySubscribers\<close>.  When no callback throws, every registered
  callback is called.
\<close>

theorem notify_stops_at_first_throw:
  assumes "subs k = Some callbacks"
  shows "notifySubscribers subs (recording throws) k invoked =
     (invoked @ takeWhile (\<lambda>c. throws c = None) callbacks
              @ take 1 (dropWhile (\<lambda>c. throws c = None) callbacks),
      (case dropWhile (\<lambda>c. throws c = None) callbacks of [] \<Rightarrow> None | c # rest \<Rightarrow> throws c))"
  using assms by (simp add: notifySubscribers_def forEach_recording)

theorem notify_stops_at_first_throw_witness:
  "two_callbacks ''k'' = Some [1, 2]
   \<and> notifySubscribers two_callbacks (recording (\<lambda>c. None :: js_value option)) ''k'' [] = ([1, 2], None)"
proof -
  have h: "two_callbacks ''k'' = Some [1, 2]" by (simp add: two_callbacks_def)
  show ?thesis
    using h notify_stops_at_first_throw[of two_callbacks "''k''" "[1, 2]" "\<lambda>c. None" "[]"] by simp
qed

text \<open>
  C4 as stated fails: with the callbacks 1 and 2 registered for a key and callback
  1 throwing, callback 2 is never called.
\<close>

theorem throwing_callback_ends_notify:
  "two_callbacks ''k'' = Some [1, 2]
   \<and> notifySubscribers two_callbacks (recording first_throws) ''k'' [] = ([1], Some (JString ''boom''))"
  by (simp add: two_callbacks_def notifySubscribers_def recording_def first_throws_def)

section \<open>The gate of the subscription callback\<close>

text \<open>
  C5, as amended.  \<^verbatim>\<open>handleCacheUpdate\<close> mirrors a resolved or rejected entry of its
  key into the instance's state whenever \<^verbatim>\<open>cleanupCalled\<close> of its effect run is
  false, and does nothing when it is true; the request counter is not consulted.
\<close>

theorem handleCacheUpdate_gate_is_cleanupCalled:
  assumes "eff_cacheKey eff = Some k" and "asyncDataCache s k = Some cached"
  shows "handleCacheUpdate eff s =
     (if cleanupCalled (hooks s ! eff_hook eff) (eff_requestId eff) then s
      else if status cached = Resolved then
        setState (eff_hook eff) (\<lambda>h. h\<lparr>data := entry_data cached, isLoading := False, error := None\<rparr>) s
      else if status cached = Rejected then
        setState (eff_hook eff) (\<lambda>h. h\<lparr>error := entry_error cached, data := None, isLoading := False\<rparr>) s
      else s)"
  using assms by (simp add: handleCacheUpdate_def set_defs setState_twice)

theorem handleCacheUpdate_gate_is_cleanupCalled_witness:
  "eff_cacheKey \<lparr>eff_hook = 1, eff_requestId = 1, eff_cacheKey = Some ''k''\<rparr> = Some ''k''
   \<and> asyncDataCache (run init [Mount (Some ''k''), Mount (Some ''k''), Refetch 1, Settle 0 (Fulfilled (Some (7::nat)))]) ''k''
      = Some \<lparr>promise = Some 0, status = Resolved, entry_data = Some 7, entry_error = None\<rparr>
   \<and> data (hooks (handleCacheUpdate \<lparr>eff_hook = 1, eff_requestId = 1, eff_cacheKey = Some ''k''\<rparr>
        (run init [Mount (Some ''k''), Mount (Some ''k''), Refetch 1, Settle 0 (Fulfilled (Some (7::nat)))])) ! 1) = Some 7"
proof -
  let ?s = "run init [Mount (Some ''k''), Mount (Some ''k''), Refetch 1, Settle 0 (Fulfilled (Some (7::nat)))]"
  let ?eff = "\<lparr>eff_hook = 1, eff_requestId = 1, eff_cacheKey = Some ''k''\<rparr>"
  have k: "eff_cacheKey ?eff = Some ''k''" by simp
  have c: "asyncDataCache ?s ''k''
      = Some \<lparr>promise = Some 0, status = Resolved, entry_data = Some 7, entry_error = None\<rparr>"
    by code_simp
  have n: "\<not> cleanupCalled (hooks ?s ! 1) 1" and l: "1 < length (hooks ?s)"
    and m: "mounted (hooks ?s ! 1)" by code_simp+
  have "data (hooks (handleCacheUpdate ?eff s) ! 1) = Some 7"
    if a: "asyncDataCache s ''k''
          = Some \<lparr>promise = Some 0, status = Resolved, entry_data = Some 7, entry_error = None\<rparr>"
      and b: "\<not> cleanupCalled (hooks s ! 1) 1" and l: "1 < length (hooks s)"
      and m: "mounted (hooks s ! 1)" for s :: "nat state"
    using handleCacheUpdate_gate_is_cleanupCalled[OF k a] b l m by (simp add: setState_hooks)
  from this[OF c n l m] k c show ?thesis by blast
qed

text \<open>
  C5 as stated fails: two instances share a key and the second calls
  \<^verbatim>\<open>refetch\<close>, which moves its request counter to 2 while the subscribed callback
  belongs to the effect run with request id 1.  When the first instance's fetch
  settles, the second instance shows its value and stops loading, though its own
  request 2 is still in flight.
\<close>

theorem subscription_callback_mirrors_after_refetch:
  "subscribers (run init [Mount (Some ''k''), Mount (Some ''k''), Refetch 1]) ''k''
     = Some [\<lparr>eff_hook = 0, eff_requestId = 1, eff_cacheKey = Some ''k''\<rparr>,
             \<lparr>eff_hook = 1, eff_requestId = 1, eff_cacheKey = Some ''k''\<rparr>]
   \<and> latestRequestId (hooks (run init [Mount (Some ''k''), Mount (Some ''k''), Refetch 1] :: nat state) ! 1) = 2
   \<and> data (hooks (run init [Mount (Some ''k''), Mount (Some ''k''), Refetch 1] :: nat state) ! 1) = None
   \<and> latestRequestId (hooks (run init [Mount (Some ''k''), Mount (Some ''k''), Refetch 1, Settle 0 (Fulfilled (Some (7::nat)))]) ! 1) = 2
   \<and> data (hooks (run init [Mount (Some ''k''), Mount (Some ''k''), Refetch 1, Settle 0 (Fulfilled (Some (7::nat)))]) ! 1) = Some 7
   \<and> isLoading (hooks (run init [Mount (Some ''k''), Mount (Some ''k''), Refetch 1, Settle 0 (Fulfilled (Some (7::nat)))]) ! 1) = False"
  by code_simp

section \<open>Instances without a cache key\<close>

lemma fetchData_request_subscribers [simp]: "subscribers (fetchData_request i k r s) = subscribers s"
  by (simp add: fetchData_request_def Let_def setters split: option.splits)

lemma fetchData_request_calls [simp]:
  "calls (fetchData_request i k r s) = calls s @ [\<lparr>inv_hook = i, inv_cacheKey = k, inv_requestId = r, inv_promise = length (promises s)\<rparr>]"
  by (simp add: fetchData_request_def Let_def setters split: option.splits)

lemma fetchData_unkeyed:
  "truthy k = None \<Longrightarrow> fetchData i k r s =
     await (length (promises s)) (FetchData_await i k r (length (promises s)))
       ((setState i (\<lambda>h. h\<lparr>isLoading := True, error := None\<rparr>) s)
          \<lparr>promises := promises s @ [None],
           calls := calls s @ [\<lparr>inv_hook = i, inv_cacheKey = k, inv_requestId = r,
                                inv_promise = length (promises s)\<rparr>]\<rparr>)"
  by (simp add: fetchData_def fetchData_request_def set_defs setState_twice Let_def)

lemma initializeFetch_unkeyed:
  "truthy (eff_cacheKey eff) = None \<Longrightarrow> initializeFetch eff s =
     (fetchData (eff_hook eff) (eff_cacheKey eff) (eff_requestId eff)
        (update_hook (eff_hook eff) (\<lambda>h. h\<lparr>latestRequestId := eff_requestId eff\<rparr>) s), None)"
  by (simp add: initializeFetch_def Let_def)

lemma useEffect_unkeyed:
  "truthy (cacheKey (hooks s ! i)) = None \<Longrightarrow> i < length (hooks s) \<Longrightarrow> useEffect i s =
     update_hook i (\<lambda>h. h\<lparr>destroy := Some \<lparr>eff_hook = i, eff_requestId = latestRequestId (hooks s ! i) + 1,
                 eff_cacheKey = cacheKey (hooks s ! i)\<rparr>\<rparr>)
      (fetchData i (cacheKey (hooks s ! i)) (latestRequestId (hooks s ! i) + 1)
        (update_hook i (\<lambda>h. h\<lparr>latestRequestId := latestRequestId (hooks s ! i) + 1\<rparr>)
          (update_hook i (\<lambda>h. h\<lparr>cleanupCalled := (cleanupCalled h)(latestRequestId (hooks s ! i) + 1 := False)\<rparr>) s)))"
  by (simp add: useEffect_def initializeFetch_unkeyed Let_def)

lemma cleanup_unkeyed:
  "truthy (eff_cacheKey eff) = None \<Longrightarrow> cleanup eff s =
     update_hook (eff_hook eff)
                 (\<lambda>h. h\<lparr>cleanupCalled := (cleanupCalled h)(eff_requestId eff := True),
                        latestRequestId := latestRequestId h + 1\<rparr>) s"
  by (simp add: cleanup_def)


lemma mount_unkeyed:
  assumes "truthy k = None"
  shows "asyncDataCache (step s (Mount k)) = asyncDataCache s"
    and "subscribers (step s (Mount k)) = subscribers s"
    and "calls (step s (Mount k)) = calls s @ [\<lparr>inv_hook = length (hooks s), inv_cacheKey = k,
            inv_requestId = 1, inv_promise = length (promises s)\<rparr>]"
    and "hooks (step (s\<lparr>asyncDataCache := c, subscribers := sb\<rparr>) (Mount k)) = hooks (step s (Mount k))"
  using assms
  by (simp_all add: useEffect_unkeyed fetchData_unkeyed initial_hook_def setState_hooks)

lemma refetch_unkeyed:
  assumes "truthy k = None" "i < length (hooks s)" "cacheKey (hooks s ! i) = k"
  shows "asyncDataCache (step s (Refetch i)) = asyncDataCache s"
    and "subscribers (step s (Refetch i)) = subscribers s"
    and "calls (step s (Refetch i)) = calls s @ [\<lparr>inv_hook = i, inv_cacheKey = k,
               inv_requestId = latestRequestId (hooks s ! i) + 1, inv_promise = length (promises s)\<rparr>]"
    and "hooks (step (s\<lparr>asyncDataCache := c, subscribers := sb\<rparr>) (Refetch i)) = hooks (step s (Refetch i))"
  using assms
  by (simp_all add: refetch_def fetchData_unkeyed Let_def setState_hooks)

lemma teardown_unkeyed:
  assumes "truthy k = None" "i < length (hooks s)" "destroy (hooks s ! i) = Some eff" "eff_cacheKey eff = k"
  shows "asyncDataCache (step s (Unmount i)) = asyncDataCache s"
    and "subscribers (step s (Unmount i)) = subscribers s"
    and "calls (step s (Unmount i)) = calls s"
    and "asyncDataCache (step s (Rerender i k)) = asyncDataCache s"
    and "subscribers (step s (Rerender i k)) = subscribers s"
    and "length (calls (step s (Rerender i k))) = length (calls s) + 1"
  using assms
  by (simp_all add: cleanup_unkeyed useEffect_unkeyed fetchData_unkeyed setState_hooks)

lemma fetchData_try_unkeyed:
  "truthy k = None \<Longrightarrow> fetchData_try i k r p v s =
     (if r = latestRequestId (hooks s ! i)
      then setState i (\<lambda>h. h\<lparr>data := v, error := None\<rparr>) s else s, None)"
  by (simp add: fetchData_try_def set_defs setState_twice)

lemma fetchData_catch_unkeyed:
  "truthy k = None \<Longrightarrow> fetchData_catch i k r err s =
     (if r = latestRequestId (hooks s ! i) then
        (case errorToSet err of
           Inl thrown \<Rightarrow> (s, Some thrown)
         | Inr e \<Rightarrow> (setState i (\<lambda>h. h\<lparr>error := Some e, data := None\<rparr>) s, None))
      else (s, None))"
  by (simp add: fetchData_catch_def set_defs setState_twice split: sum.splits)

lemma settled_unkeyed:
  assumes "truthy k = None"
  shows "asyncDataCache (fst (fetchData_settled i k r p out s)) = asyncDataCache s"
    and "subscribers (fst (fetchData_settled i k r p out s)) = subscribers s"
    and "hooks (fst (fetchData_settled i k r p out (s\<lparr>asyncDataCache := c, subscribers := sb\<rparr>)))
           = hooks (fst (fetchData_settled i k r p out s))"
proof -
  show "asyncDataCache (fst (fetchData_settled i k r p out s)) = asyncDataCache s"
    using assms
    by (cases out)
       (simp_all add: fetchData_settled_eq fetchData_try_cache fetchData_catch_cache split: sum.splits)
  show "subscribers (fst (fetchData_settled i k r p out s)) = subscribers s"
    using fetchData_settled_quiet[of s i k r p out] by (simp add: quiet_def)
  show "hooks (fst (fetchData_settled i k r p out (s\<lparr>asyncDataCache := c, subscribers := sb\<rparr>)))
           = hooks (fst (fetchData_settled i k r p out s))"
    using assms
    by (cases out; cases "r = latestRequestId (hooks s ! i)")
       (simp_all add: fetchData_settled_eq fetchData_try_unkeyed fetchData_catch_unkeyed
          fetchData_finally_def setters split: sum.splits)
qed

text \<open>
  C9.  For a falsy key (\<^verbatim>\<open>undefined\<close> or the empty string) mounting, refetching,
  rendering again, unmounting and the code after the await leave the cache and the
  subscriber registry as they were; mounting, refetching and rendering again call
  the producer once; and the instance's resulting state does not depend on what the
  cache and the registry hold.  The only exception that can leave the code after
  the await is the one \<^verbatim>\<open>String\<close> throws on a rejection value when the request is
  current.
\<close>

theorem unkeyed_instance_leaves_store_alone:
  assumes "truthy k = None"
  shows "asyncDataCache (step s (Mount k)) = asyncDataCache s
       \<and> subscribers (step s (Mount k)) = subscribers s
       \<and> calls (step s (Mount k)) = calls s @ [\<lparr>inv_hook = length (hooks s), inv_cacheKey = k,
            inv_requestId = 1, inv_promise = length (promises s)\<rparr>]
       \<and> hooks (step (s\<lparr>asyncDataCache := c, subscribers := sb\<rparr>) (Mount k)) = hooks (step s (Mount k))
       \<and> (i < length (hooks s) \<and> cacheKey (hooks s ! i) = k \<longrightarrow>
            asyncDataCache (step s (Refetch i)) = asyncDataCache s
          \<and> subscribers (step s (Refetch i)) = subscribers s
          \<and> calls (step s (Refetch i)) = calls s @ [\<lparr>inv_hook = i, inv_cacheKey = k,
               inv_requestId = latestRequestId (hooks s ! i) + 1, inv_promise = length (promises s)\<rparr>]
          \<and> hooks (step (s\<lparr>asyncDataCache := c, subscribers := sb\<rparr>) (Refetch i)) = hooks (step s (Refetch i)))
       \<and> (i < length (hooks s) \<and> destroy (hooks s ! i) = Some eff \<and> eff_cacheKey eff = k \<longrightarrow>
            asyncDataCache (step s (Unmount i)) = asyncDataCache s
          \<and> subscribers (step s (Unmount i)) = subscribers s
          \<and> calls (step s (Unmount i)) = calls s
          \<and> asyncDataCache (step s (Rerender i k)) = asyncDataCache s
          \<and> subscribers (step s (Rerender i k)) = subscribers s
          \<and> length (calls (step s (Rerender i k))) = length (calls s) + 1)
       \<and> asyncDataCache (fst (fetchData_settled i k r p out s)) = asyncDataCache s
       \<and> subscribers (fst (fetchData_settled i k r p out s)) = subscribers s
       \<and> snd (fetchData_settled i k r p out s) =
           (case out of
              Fulfilled v \<Rightarrow> None
            | Rejects err \<Rightarrow>
                if r = latestRequestId (hooks s ! i)
                then (case errorToSet err of Inl thrown \<Rightarrow> Some thrown | Inr e \<Rightarrow> None) else None)
       \<and> hooks (fst (fetchData_settled i k r p out (s\<lparr>asyncDataCache := c, subscribers := sb\<rparr>)))
           = hooks (fst (fetchData_settled i k r p out s))"
proof -
  have mount: "asyncDataCache (step s (Mount k)) = asyncDataCache s
       \<and> subscribers (step s (Mount k)) = subscribers s
       \<and> calls (step s (Mount k)) = calls s @ [\<lparr>inv_hook = length (hooks s), inv_cacheKey = k,
            inv_requestId = 1, inv_promise = length (promises s)\<rparr>]
       \<and> hooks (step (s\<lparr>asyncDataCache := c, subscribers := sb\<rparr>) (Mount k)) = hooks (step s (Mount k))"
    by (intro conjI) (rule mount_unkeyed[OF assms])+
  have refetch: "asyncDataCache (step s (Refetch i)) = asyncDataCache s
          \<and> subscribers (step s (Refetch i)) = subscribers s
          \<and> calls (step s (Refetch i)) = calls s @ [\<lparr>inv_hook = i, inv_cacheKey = k,
               inv_requestId = latestRequestId (hooks s ! i) + 1, inv_promise = length (promises s)\<rparr>]
          \<and> hooks (step (s\<lparr>asyncDataCache := c, subscribers := sb\<rparr>) (Refetch i)) = hooks (step s (Refetch i))"
    if "i < length (hooks s)" "cacheKey (hooks s ! i) = k"
    by (intro conjI) (rule refetch_unkeyed[OF assms that])+
  have teardown: "asyncDataCache (step s (Unmount i)) = asyncDataCache s
          \<and> subscribers (step s (Unmount i)) = subscribers s
          \<and> calls (step s (Unmount i)) = calls s
          \<and> asyncDataCache (step s (Rerender i k)) = asyncDataCache s
          \<and> subscribers (step s (Rerender i k)) = subscribers s
          \<and> length (calls (step s (Rerender i k))) = length (calls s) + 1"
    if "i < length (hooks s)" "destroy (hooks s ! i) = Some eff" "eff_cacheKey eff = k"
    by (intro conjI) (rule teardown_unkeyed[OF assms that])+
  have settled: "asyncDataCache (fst (fetchData_settled i k r p out s)) = asyncDataCache s
       \<and> subscribers (fst (fetchData_settled i k r p out s)) = subscribers s
       \<and> snd (fetchData_settled i k r p out s) =
           (case out of
              Fulfilled v \<Rightarrow> None
            | Rejects err \<Rightarrow>
                if r = latestRequestId (hooks s ! i)
                then (case errorToSet err of Inl thrown \<Rightarrow> Some thrown | Inr e \<Rightarrow> None) else None)
       \<and> hooks (fst (fetchData_settled i k r p out (s\<lparr>asyncDataCache := c, subscribers := sb\<rparr>)))
           = hooks (fst (fetchData_settled i k r p out s))"
    by (intro conjI) (rule settled_unkeyed[OF assms] fetchData_settled_throw)+
  from mount refetch teardown settled show ?thesis by blast
qed

theorem unkeyed_instance_leaves_store_alone_witness:
  "truthy None = None
   \<and> 0 < length (hooks (run init [Mount None] :: nat state))
   \<and> cacheKey (hooks (run init [Mount None] :: nat state) ! 0) = None
   \<and> destroy (hooks (run init [Mount None] :: nat state) ! 0)
       = Some \<lparr>eff_hook = 0, eff_requestId = 1, eff_cacheKey = None\<rparr>
   \<and> asyncDataCache (step (run init [Mount None] :: nat state) (Refetch 0))
       = asyncDataCache (run init [Mount None] :: nat state)
   \<and> subscribers (step (run init [Mount None] :: nat state) (Refetch 0))
       = subscribers (run init [Mount None] :: nat state)
   \<and> asyncDataCache (step (run init [Mount None] :: nat state) (Unmount 0))
       = asyncDataCache (run init [Mount None] :: nat state)
   \<and> subscribers (step (run init [Mount None] :: nat state) (Unmount 0))
       = subscribers (run init [Mount None] :: nat state)
   \<and> length (calls (step (run init [Mount None] :: nat state) (Rerender 0 None))) =
       length (calls (run init [Mount None] :: nat state)) + 1"
proof -
  let ?s = "run init [Mount None] :: nat state"
  let ?eff = "\<lparr>eff_hook = 0, eff_requestId = 1, eff_cacheKey = None\<rparr>"
  have t: "truthy None = None" by (simp add: truthy_def)
  have l: "0 < length (hooks ?s)" and k: "cacheKey (hooks ?s ! 0) = None"
    and d: "destroy (hooks ?s ! 0) = Some ?eff"
    by code_simp+
  have e: "eff_cacheKey ?eff = None" by simp
  from unkeyed_instance_leaves_store_alone[OF t, of ?s _ _ 0 ?eff] l k d e
  have "asyncDataCache (step ?s (Refetch 0)) = asyncDataCache ?s
      \<and> subscribers (step ?s (Refetch 0)) = subscribers ?s
      \<and> asyncDataCache (step ?s (Unmount 0)) = asyncDataCache ?s
      \<and> subscribers (step ?s (Unmount 0)) = subscribers ?s
      \<and> length (calls (step ?s (Rerender 0 None))) = length (calls ?s) + 1"
    by blast
  with t l k d show ?thesis by blast
qed

section \<open>Facts of every reachable state\<close>

lemma launched_refl [simp]: "launched i r s s"
  by (simp add: launched_def)

lemma launched_trans: "launched i r s s' \<Longrightarrow> launched i r s' s'' \<Longrightarrow> launched i r s s''"
  unfolding launched_def by (intro conjI; (simp; fail | blast))

lemma launched_update_hook:
  "(\<And>h. refs (f h) = refs h) \<Longrightarrow> launched i r s (update_hook i f s)"
  by (simp add: launched_def nth_list_update_if cache_ok_def)

lemma launched_then_update_hook:
  "launched i r s t \<Longrightarrow> (\<And>h. refs (f h) = refs h) \<Longrightarrow> launched i r s (update_hook i f t)"
  by (erule launched_trans) (rule launched_update_hook)

lemma launched_then:
  "launched i r s t \<Longrightarrow> launched i r s (setData i v t)"
  "launched i r s t \<Longrightarrow> launched i r s (setIsLoading i b t)"
  "launched i r s t \<Longrightarrow> launched i r s (setError i e t)"
  "launched i r s t \<Longrightarrow> launched i r s (setCacheEntryStatus i ce t)"
  by (auto simp: setters refs_def exposed_def split: if_splits intro!: launched_then_update_hook)

lemma launched_then_cache_set:
  "launched i r s t \<Longrightarrow> entry_ok e \<Longrightarrow> launched i r s (cache_set k e t)"
  by (erule launched_trans) (simp add: launched_def cache_ok_def)

lemma launched_then_await:
  "launched i r s t \<Longrightarrow> cont_hook c = i \<Longrightarrow> cont_id c = r \<Longrightarrow> launched i r s (await p c t)"
  by (erule launched_trans) (simp add: launched_def cache_ok_def)

lemma launched_promise:
  "launched i r s (s\<lparr>promises := ps, calls := cs\<rparr>)"
  by (simp add: launched_def cache_ok_def)

lemma launched_request: "launched i r s (fetchData_request i k r s)"
  unfolding fetchData_request_def Let_def
  by (cases "truthy k")
     (simp_all add: launched_then_await launched_then launched_then_cache_set launched_promise
        entry_ok_def)

lemma launched_then_request:
  "launched i r s t \<Longrightarrow> launched i r s (fetchData_request i k r t)"
  by (erule launched_trans) (rule launched_request)

lemma launched_fetchData: "launched i r s (fetchData i k r s)"
  unfolding fetchData_def Let_def
  by (simp add: launched_then launched_then_request split: option.splits)

lemma launched_then_fetchData:
  "launched i r s t \<Longrightarrow> launched i r s (fetchData i k r t)"
  by (erule launched_trans) (rule launched_fetchData)

lemma launched_initializeFetch:
  "launched (eff_hook eff) (eff_requestId eff)
     (update_hook (eff_hook eff) (\<lambda>h. h\<lparr>latestRequestId := eff_requestId eff\<rparr>) s)
     (fst (initializeFetch eff s))"
  unfolding initializeFetch_def Let_def
  by (simp add: launched_then launched_then_fetchData launched_then_await
      split: option.splits outcome.splits)

lemma subs_ok_transfer:
  assumes "subs_ok s" "subscribers s' = subscribers s" "length (hooks s') = length (hooks s)"
    and "\<And>j. j < length (hooks s) \<Longrightarrow> destroy (hooks s' ! j) = destroy (hooks s ! j)"
  shows "subs_ok s'"
  using assms unfolding subs_ok_def by metis

lemma destroy_ok_transfer:
  assumes "destroy_ok s" "length (hooks s') = length (hooks s)"
    and "\<And>j. j < length (hooks s) \<Longrightarrow> destroy (hooks s' ! j) = destroy (hooks s ! j)"
  shows "destroy_ok s'"
  using assms unfolding destroy_ok_def by metis

lemma awaiting_ok_transfer:
  assumes "awaiting_ok s" "length (hooks s') = length (hooks s)"
    and "\<And>j. j < length (hooks s) \<Longrightarrow> latestRequestId (hooks s ! j) \<le> latestRequestId (hooks s' ! j)"
    and "\<And>pc. pc \<in> set (awaiting s') \<Longrightarrow> pc \<in> set (awaiting s)
           \<or> (cont_hook (snd pc) < length (hooks s)
              \<and> cont_id (snd pc) \<le> latestRequestId (hooks s' ! cont_hook (snd pc)))"
  shows "awaiting_ok s'"
  unfolding awaiting_ok_def
proof
  fix pc assume pc: "pc \<in> set (awaiting s')"
  show "cont_hook (snd pc) < length (hooks s')
       \<and> cont_id (snd pc) \<le> latestRequestId (hooks s' ! cont_hook (snd pc))"
  proof (cases "pc \<in> set (awaiting s)")
    case True
    with assms(1) have a: "cont_hook (snd pc) < length (hooks s)"
      and b: "cont_id (snd pc) \<le> latestRequestId (hooks s ! cont_hook (snd pc))"
      by (auto simp: awaiting_ok_def)
    from assms(3)[OF a] b a assms(2) show ?thesis by simp
  next
    case False
    with assms(4)[OF pc] assms(2) show ?thesis by simp
  qed
qed

lemma launched_refs: "launched i r s s' \<Longrightarrow> refs (hooks s' ! j) = refs (hooks s ! j)"
  by (cases "j = i") (simp_all add: launched_def)

lemma launched_destroy: "launched i r s s' \<Longrightarrow> destroy (hooks s' ! j) = destroy (hooks s ! j)"
  using launched_refs[of i r s s' j] by (simp add: refs_def)

lemma launched_latest: "launched i r s s' \<Longrightarrow> latestRequestId (hooks s' ! j) = latestRequestId (hooks s ! j)"
  using launched_refs[of i r s s' j] by (simp add: refs_def)

lemma launched_length: "launched i r s s' \<Longrightarrow> length (hooks s') = length (hooks s)"
  by (simp add: launched_def)

lemma launched_subscribers: "launched i r s s' \<Longrightarrow> subscribers s' = subscribers s"
  by (simp add: launched_def)

lemma launched_cache_ok: "launched i r s s' \<Longrightarrow> cache_ok s \<Longrightarrow> cache_ok s'"
  by (simp add: launched_def)

lemma launched_subs_ok:
  assumes "launched i r s s'" "subs_ok s" shows "subs_ok s'"
  by (rule subs_ok_transfer[OF assms(2)])
     (simp_all add: launched_destroy[OF assms(1)] launched_length[OF assms(1)]
        launched_subscribers[OF assms(1)])

lemma launched_destroy_ok:
  assumes "launched i r s s'" "destroy_ok s" shows "destroy_ok s'"
  by (rule destroy_ok_transfer[OF assms(2)])
     (simp_all add: launched_destroy[OF assms(1)] launched_length[OF assms(1)])

lemma launched_awaiting_ok:
  assumes "launched i r s s'" "awaiting_ok s" "i < length (hooks s)" "r \<le> latestRequestId (hooks s ! i)"
  shows "awaiting_ok s'"
proof (rule awaiting_ok_transfer[OF assms(2)])
  show "length (hooks s') = length (hooks s)" using assms(1) by (rule launched_length)
  show "latestRequestId (hooks s ! j) \<le> latestRequestId (hooks s' ! j)" for j
    using launched_latest[OF assms(1), of j] by simp
  show "pc \<in> set (awaiting s) \<or> (cont_hook (snd pc) < length (hooks s)
              \<and> cont_id (snd pc) \<le> latestRequestId (hooks s' ! cont_hook (snd pc)))"
    if "pc \<in> set (awaiting s')" for pc
    using that assms launched_latest[OF assms(1), of i] by (auto simp: launched_def)
qed

lemma quiet_subs_ok:
  assumes "quiet s s'" "subs_ok s" shows "subs_ok s'"
proof (rule subs_ok_transfer[OF assms(2)])
  show "subscribers s' = subscribers s" using assms(1) by (simp add: quiet_def)
qed (simp_all add: quiet_destroy[OF assms(1)] quiet_length[OF assms(1)])

lemma quiet_destroy_ok:
  assumes "quiet s s'" "destroy_ok s" shows "destroy_ok s'"
  by (rule destroy_ok_transfer[OF assms(2)])
     (simp_all add: quiet_destroy[OF assms(1)] quiet_length[OF assms(1)])

lemma quiet_awaiting_ok:
  assumes "quiet s s'" "awaiting_ok s" shows "awaiting_ok s'"
proof (rule awaiting_ok_transfer[OF assms(2)])
  show "pc \<in> set (awaiting s) \<or> (cont_hook (snd pc) < length (hooks s)
              \<and> cont_id (snd pc) \<le> latestRequestId (hooks s' ! cont_hook (snd pc)))"
    if "pc \<in> set (awaiting s')" for pc
    using that assms(1) by (simp add: quiet_def)
qed (simp_all add: quiet_latest[OF assms(1)] quiet_length[OF assms(1)])

lemma consistent_init: "consistent init"
  by (simp add: consistent_def subs_ok_def destroy_ok_def awaiting_ok_def cache_ok_def init_def)

lemma consistent_update_hook:
  assumes "consistent s" and d: "\<And>h. destroy (f h) = destroy h"
    and l: "\<And>h. latestRequestId h \<le> latestRequestId (f h)"
  shows "consistent (update_hook i f s)"
proof -
  have "subs_ok (update_hook i f s)"
    by (rule subs_ok_transfer[of s]) (use assms in \<open>simp_all add: consistent_def nth_list_update_if d\<close>)
  moreover have "destroy_ok (update_hook i f s)"
    by (rule destroy_ok_transfer[of s]) (use assms in \<open>simp_all add: consistent_def nth_list_update_if d\<close>)
  moreover have "awaiting_ok (update_hook i f s)"
    by (rule awaiting_ok_transfer[of s]) (use assms in \<open>simp_all add: consistent_def nth_list_update_if l\<close>)
  moreover have "cache_ok (update_hook i f s)"
    using assms(1) by (simp add: consistent_def cache_ok_def)
  ultimately show ?thesis by (simp add: consistent_def)
qed

lemma absent_update_hook [simp]: "absent j (update_hook i f s) = absent j s"
  by (simp add: absent_def)

lemma subscribe_mem:
  "subscribe k cb subs k' = Some cbs' \<Longrightarrow> c \<in> set cbs' \<Longrightarrow>
     (k' = k \<and> c = cb) \<or> (\<exists>cbs. subs k' = Some cbs \<and> c \<in> set cbs)"
  by (auto simp add: subscribe_def Let_def split: option.splits if_splits)

lemma unsubscribe_mem:
  "unsubscribe k cb subs k' = Some cbs' \<Longrightarrow> c \<in> set cbs' \<Longrightarrow>
     (\<exists>cbs. subs k' = Some cbs \<and> c \<in> set cbs) \<and> \<not> (k' = k \<and> c = cb)"
  by (auto simp add: unsubscribe_def Let_def split: option.splits if_splits)

lemma cleanup_consistent:
  assumes "consistent s" "i < length (hooks s)" "destroy (hooks s ! i) = Some eff"
  shows "consistent (cleanup eff s)" and "absent i (cleanup eff s)"
proof -
  from assms have hook: "eff_hook eff = i" by (simp add: consistent_def destroy_ok_def)
  let ?f = "\<lambda>h. h\<lparr>cleanupCalled := (cleanupCalled h)(eff_requestId eff := True),
                        latestRequestId := latestRequestId h + 1\<rparr>"
  let ?s1 = "update_hook i ?f s"
  have c1: "consistent ?s1" by (rule consistent_update_hook[OF assms(1)]) simp_all
  have d1: "destroy (hooks ?s1 ! j) = destroy (hooks s ! j)" for j
    by (simp add: nth_list_update_if)
  have len1: "length (hooks ?s1) = length (hooks s)" by simp
  show "consistent (cleanup eff s)"
  proof (cases "truthy (eff_cacheKey eff)")
    case None
    then show ?thesis using c1 hook by (simp add: cleanup_def)
  next
    case (Some key)
    then have eq: "cleanup eff s = ?s1\<lparr>subscribers := unsubscribe key eff (subscribers s)\<rparr>"
      using hook by (simp add: cleanup_def)
    have "subs_ok (?s1\<lparr>subscribers := unsubscribe key eff (subscribers s)\<rparr>)"
      using c1 unfolding consistent_def subs_ok_def
      by (auto dest!: unsubscribe_mem)
    moreover have "destroy_ok (?s1\<lparr>subscribers := unsubscribe key eff (subscribers s)\<rparr>)"
      using c1 unfolding consistent_def destroy_ok_def by simp
    moreover have "awaiting_ok (?s1\<lparr>subscribers := unsubscribe key eff (subscribers s)\<rparr>)"
      using c1 unfolding consistent_def awaiting_ok_def by simp
    moreover have "cache_ok (?s1\<lparr>subscribers := unsubscribe key eff (subscribers s)\<rparr>)"
      using c1 unfolding consistent_def cache_ok_def by simp
    ultimately show ?thesis by (simp add: eq consistent_def)
  qed
  show "absent i (cleanup eff s)"
    unfolding absent_def
  proof (intro allI impI)
    fix k cbs cb
    assume sub: "subscribers (cleanup eff s) k = Some cbs" and mem: "cb \<in> set cbs"
    show "eff_hook cb \<noteq> i"
    proof
      assume own: "eff_hook cb = i"
      have old: "\<exists>cbs0. subscribers s k = Some cbs0 \<and> cb \<in> set cbs0"
        using sub mem hook
        by (cases "truthy (eff_cacheKey eff)") (auto simp: cleanup_def dest: unsubscribe_mem)
      with assms(1) own have "destroy (hooks s ! i) = Some cb" and key: "eff_cacheKey cb = Some k" "k \<noteq> []"
        by (auto simp: consistent_def subs_ok_def)
      with assms(3) have "cb = eff" by simp
      with key have t: "truthy (eff_cacheKey eff) = Some k" by (simp add: truthy_def)
      with sub mem \<open>cb = eff\<close> hook show False
        by (auto simp: cleanup_def dest: unsubscribe_mem)
    qed
  qed
qed

lemma consistent_launched:
  assumes "launched i r s s'" "consistent s" "i < length (hooks s)" "r \<le> latestRequestId (hooks s ! i)"
  shows "consistent s'"
  using assms launched_subs_ok[OF assms(1)] launched_destroy_ok[OF assms(1)]
    launched_awaiting_ok[OF assms(1)] launched_cache_ok[OF assms(1)]
  by (simp add: consistent_def)

lemma consistent_quiet:
  assumes "quiet s s'" "consistent s" "cache_ok s'"
  shows "consistent s'"
  using assms quiet_subs_ok[OF assms(1)] quiet_destroy_ok[OF assms(1)] quiet_awaiting_ok[OF assms(1)]
  by (simp add: consistent_def)

lemma absent_launched: "launched i r s s' \<Longrightarrow> absent j s' = absent j s"
  by (simp add: absent_def launched_def)

lemma resume_throw:
  "snd (resume c out s) =
     (case out of
        Fulfilled v \<Rightarrow> None
      | Rejects err \<Rightarrow>
          if current c s
          then (case errorToSet err of Inl thrown \<Rightarrow> Some thrown | Inr e \<Rightarrow> None) else None)"
  by (cases c) (auto simp: fetchData_settled_throw initializeFetch_settled_throw split: outcome.splits)


lemma resume_quiet: "quiet s (fst (resume c out s))"
  by (cases c) (simp_all add: fetchData_settled_quiet initializeFetch_settled_quiet)

lemma resume_unhandled [simp]: "unhandledRejections (fst (resume c out s)) = unhandledRejections s"
  by (cases c) simp_all

lemma resume_cache_ok: "cache_ok s \<Longrightarrow> cache_ok (fst (resume c out s))"
proof (cases c)
  case (FetchData_await i k r p)
  assume "cache_ok s"
  then show ?thesis unfolding FetchData_await by (simp add: fetchData_settled_cache_ok)
next
  case (InitializeFetch_await eff)
  assume "cache_ok s"
  then show ?thesis unfolding InitializeFetch_await by (simp add: cache_ok_def)
qed

lemma microtask_proj [simp]:
  "hooks (microtask c out s) = hooks (fst (resume c out s))"
  "asyncDataCache (microtask c out s) = asyncDataCache (fst (resume c out s))"
  "subscribers (microtask c out s) = subscribers (fst (resume c out s))"
  "promises (microtask c out s) = promises (fst (resume c out s))"
  "awaiting (microtask c out s) = awaiting (fst (resume c out s))"
  "calls (microtask c out s) = calls (fst (resume c out s))"
  by (simp_all add: microtask_def split: prod.splits option.splits)

lemma microtask_unhandled:
  "unhandledRejections (microtask c out s) =
     unhandledRejections s @ (case snd (resume c out s) of None \<Rightarrow> [] | Some thrown \<Rightarrow> [(cont_hook c, thrown)])"
  using resume_unhandled[of c out s]
  by (cases "resume c out s") (simp add: microtask_def split: option.splits)


lemma microtask_quiet: "quiet s (microtask c out s)"
  using resume_quiet[of s c out] by (simp add: quiet_def)

lemma microtask_cache_ok: "cache_ok s \<Longrightarrow> cache_ok (microtask c out s)"
  using resume_cache_ok[of s c out] by (simp add: cache_ok_def)

lemma reactions_quiet: "quiet s (reactions cs out s)"
proof (induction cs arbitrary: s)
  case Nil
  show ?case by simp
next
  case (Cons c cs)
  show ?case unfolding reactions.simps
    by (rule quiet_trans[OF microtask_quiet Cons.IH])
qed

lemma reactions_cache_ok: "cache_ok s \<Longrightarrow> cache_ok (reactions cs out s)"
proof (induction cs arbitrary: s)
  case Nil
  then show ?case by simp
next
  case (Cons c cs)
  show ?case unfolding reactions.simps
    by (rule Cons.IH[OF microtask_cache_ok[OF Cons.prems]])
qed

lemma useEffect_consistent:
  assumes "consistent s" "i < length (hooks s)" "absent i s"
  shows "consistent (useEffect i s)"
proof -
  define r where "r = latestRequestId (hooks s ! i) + 1"
  define eff where "eff = \<lparr>eff_hook = i, eff_requestId = r, eff_cacheKey = cacheKey (hooks s ! i)\<rparr>"
  define s1 where "s1 = update_hook i (\<lambda>h. h\<lparr>cleanupCalled := (cleanupCalled h)(r := False)\<rparr>) s"
  define s1' where "s1' = update_hook i (\<lambda>h. h\<lparr>latestRequestId := r\<rparr>) s1"
  define s2 where "s2 = fst (initializeFetch eff s1)"
  define s3 where "s3 = (case truthy (eff_cacheKey eff) of None \<Rightarrow> s2
                | Some key \<Rightarrow> s2\<lparr>subscribers := subscribe key eff (subscribers s2)\<rparr>)"
  define s4 where "s4 = update_hook i (\<lambda>h. h\<lparr>destroy := Some eff\<rparr>) s3"
  have eq: "useEffect i s = (case snd (initializeFetch eff s1) of None \<Rightarrow> s4
                | Some out \<Rightarrow> microtask (InitializeFetch_await eff) out s4)"
    by (simp add: useEffect_def Let_def split_beta r_def eff_def s1_def s2_def s3_def s4_def
        cong: option.case_cong)
  have c1: "consistent s1" unfolding s1_def by (rule consistent_update_hook[OF assms(1)]) simp_all
  have len1: "length (hooks s1) = length (hooks s)" by (simp add: s1_def)
  have l1: "latestRequestId (hooks s1 ! i) = latestRequestId (hooks s ! i)"
    using assms(2) by (simp add: s1_def)
  have c1': "consistent s1'" unfolding s1'_def
  proof -
    have "subs_ok (update_hook i (\<lambda>h. h\<lparr>latestRequestId := r\<rparr>) s1)"
      by (rule subs_ok_transfer[of s1]) (use c1 in \<open>simp_all add: consistent_def nth_list_update_if\<close>)
    moreover have "destroy_ok (update_hook i (\<lambda>h. h\<lparr>latestRequestId := r\<rparr>) s1)"
      by (rule destroy_ok_transfer[of s1]) (use c1 in \<open>simp_all add: consistent_def nth_list_update_if\<close>)
    moreover have "awaiting_ok (update_hook i (\<lambda>h. h\<lparr>latestRequestId := r\<rparr>) s1)"
      by (rule awaiting_ok_transfer[of s1])
         (use c1 l1 in \<open>simp_all add: consistent_def nth_list_update_if r_def\<close>)
    moreover have "cache_ok (update_hook i (\<lambda>h. h\<lparr>latestRequestId := r\<rparr>) s1)"
      using c1 by (simp add: consistent_def cache_ok_def)
    ultimately show "consistent (update_hook i (\<lambda>h. h\<lparr>latestRequestId := r\<rparr>) s1)"
      by (simp add: consistent_def)
  qed
  have la: "launched i r s1' s2"
    using launched_initializeFetch[of eff s1] by (simp add: eff_def s1'_def s2_def)
  have len2: "length (hooks s2) = length (hooks s)"
    using launched_length[OF la] len1 by (simp add: s1'_def)
  have c2: "consistent s2"
    by (rule consistent_launched[OF la c1']) (use assms(2) in \<open>simp_all add: s1'_def s1_def\<close>)
  have abs2: "absent i s2"
    using absent_launched[OF la, of i] assms(3) by (simp add: s1'_def s1_def)
  have c4: "consistent s4"
  proof -
    have sub4: "\<exists>cbs0. subscribers s2 k = Some cbs0 \<and> cb \<in> set cbs0"
      if "subscribers s4 k = Some cbs" "cb \<in> set cbs" "cb \<noteq> eff" for k cbs cb
      using that
      by (cases "truthy (eff_cacheKey eff)") (auto simp: s4_def s3_def dest: subscribe_mem)
    have noeff: "eff \<notin> set cbs0" if "subscribers s2 k = Some cbs0" for k cbs0
    proof
      assume "eff \<in> set cbs0"
      with abs2 that have "eff_hook eff \<noteq> i" unfolding absent_def by blast
      then show False by (simp add: eff_def)
    qed
    have key4: "eff_cacheKey eff = Some k \<and> k \<noteq> []"
      if "subscribers s4 k = Some cbs" "eff \<in> set cbs" for k cbs
    proof (cases "truthy (eff_cacheKey eff)")
      case None
      with that noeff[of k cbs] show ?thesis by (simp add: s4_def s3_def)
    next
      case (Some key)
      with that have "k = key \<or> (\<exists>cbs0. subscribers s2 k = Some cbs0 \<and> eff \<in> set cbs0)"
        by (auto simp: s4_def s3_def dest: subscribe_mem)
      with noeff have "k = key" by blast
      with Some show ?thesis by (auto simp: truthy_def split: option.splits if_splits)
    qed
    have len4: "length (hooks s4) = length (hooks s)"
      using len2 by (cases "truthy (eff_cacheKey eff)") (simp_all add: s4_def s3_def)
    have hooks3: "hooks s3 = hooks s2"
      by (cases "truthy (eff_cacheKey eff)") (simp_all add: s3_def)
    have d4: "destroy (hooks s4 ! j) = (if j = i then Some eff else destroy (hooks s2 ! j))" for j
      using assms(2) len2 by (simp add: s4_def hooks3 nth_list_update_if)
    have l4: "latestRequestId (hooks s4 ! j) = latestRequestId (hooks s2 ! j)" for j
      by (simp add: s4_def hooks3 nth_list_update_if)
    have "subs_ok s4"
      unfolding subs_ok_def
    proof (intro allI impI)
      fix k cbs cb assume a: "subscribers s4 k = Some cbs" "cb \<in> set cbs"
      show "eff_cacheKey cb = Some k \<and> k \<noteq> [] \<and> eff_hook cb < length (hooks s4)
            \<and> destroy (hooks s4 ! eff_hook cb) = Some cb"
      proof (cases "cb = eff")
        case True
        with key4[of k cbs] a assms(2) len4 d4[of i] show ?thesis by (simp add: eff_def)
      next
        case False
        from sub4[OF a False] obtain cbs0 where o: "subscribers s2 k = Some cbs0" "cb \<in> set cbs0"
          by blast
        with abs2 have "eff_hook cb \<noteq> i" by (auto simp: absent_def)
        with o c2 len4 len2 d4[of "eff_hook cb"] show ?thesis
          by (auto simp: consistent_def subs_ok_def)
      qed
    qed
    moreover have "destroy_ok s4"
      using c2 len4 len2 d4 unfolding consistent_def destroy_ok_def by (auto simp: eff_def)
    moreover have "awaiting_ok s4"
    proof (rule awaiting_ok_transfer[of s2])
      show "awaiting_ok s2" using c2 by (simp add: consistent_def)
      show "length (hooks s4) = length (hooks s2)" using len4 len2 by simp
      show "latestRequestId (hooks s2 ! j) \<le> latestRequestId (hooks s4 ! j)" for j
        by (simp add: l4)
      show "pc \<in> set (awaiting s2) \<or> (cont_hook (snd pc) < length (hooks s2)
              \<and> cont_id (snd pc) \<le> latestRequestId (hooks s4 ! cont_hook (snd pc)))"
        if "pc \<in> set (awaiting s4)" for pc
        using that by (cases "truthy (eff_cacheKey eff)") (simp_all add: s4_def s3_def)
    qed
    moreover have "cache_ok s4"
      using c2 by (cases "truthy (eff_cacheKey eff)") (simp_all add: consistent_def cache_ok_def s4_def s3_def)
    ultimately show ?thesis by (simp add: consistent_def)
  qed
  show ?thesis
  proof (cases "snd (initializeFetch eff s1)")
    case None
    with c4 eq show ?thesis by simp
  next
    case (Some out)
    have "consistent (microtask (InitializeFetch_await eff) out s4)"
      by (rule consistent_quiet[OF microtask_quiet c4])
         (use c4 in \<open>simp add: consistent_def microtask_cache_ok\<close>)
    with Some eq show ?thesis by simp
  qed
qed

lemma refetch_consistent:
  assumes "consistent s" "i < length (hooks s)"
  shows "consistent (refetch i s)"
proof -
  define r where "r = latestRequestId (hooks s ! i) + 1"
  define k where "k = cacheKey (hooks s ! i)"
  define s1 where "s1 = update_hook i (\<lambda>h. h\<lparr>latestRequestId := r\<rparr>) s"
  define s2 where "s2 = (case truthy k of None \<Rightarrow> s1
                | Some key \<Rightarrow> setCacheEntryStatus i idleEntry (cache_delete key s1))"
  have eq: "refetch i s = fetchData i k r s2"
    by (simp add: refetch_def Let_def r_def k_def s1_def s2_def cong: option.case_cong)
  have c1: "consistent s1"
  proof -
    have "subs_ok s1" unfolding s1_def
      by (rule subs_ok_transfer[of s]) (use assms in \<open>simp_all add: consistent_def nth_list_update_if\<close>)
    moreover have "destroy_ok s1" unfolding s1_def
      by (rule destroy_ok_transfer[of s]) (use assms in \<open>simp_all add: consistent_def nth_list_update_if\<close>)
    moreover have "awaiting_ok s1" unfolding s1_def
      by (rule awaiting_ok_transfer[of s])
         (use assms in \<open>simp_all add: consistent_def nth_list_update_if r_def\<close>)
    moreover have "cache_ok s1"
      using assms by (simp add: consistent_def cache_ok_def s1_def)
    ultimately show ?thesis by (simp add: consistent_def)
  qed
  have c2: "consistent s2"
  proof (cases "truthy k")
    case None
    with c1 show ?thesis by (simp add: s2_def)
  next
    case (Some key)
    have "consistent (cache_delete key s1)"
      using c1 by (simp add: consistent_def subs_ok_def destroy_ok_def awaiting_ok_def cache_ok_def)
    then have "consistent (setCacheEntryStatus i idleEntry (cache_delete key s1))"
      unfolding setCacheEntryStatus_def by (rule consistent_update_hook) simp_all
    with Some show ?thesis by (simp add: s2_def)
  qed
  have l2: "latestRequestId (hooks s2 ! i) = r" and len2: "length (hooks s2) = length (hooks s)"
    using assms(2) by (cases "truthy k"; simp add: s2_def s1_def setters)+
  show ?thesis unfolding eq
    by (rule consistent_launched[OF launched_fetchData c2]) (use assms(2) l2 len2 in simp_all)
qed

lemma settle_consistent:
  assumes "consistent s" shows "consistent (settle p out s)"
proof (cases "p < length (promises s) \<and> promises s ! p = None")
  case False
  with assms show ?thesis by (auto simp: settle_def)
next
  case True
  define s1 where "s1 = s\<lparr>promises := (promises s)[p := Some out],
                    awaiting := filter (\<lambda>pc. fst pc \<noteq> p) (awaiting s)\<rparr>"
  have c1: "consistent s1"
    using assms by (simp add: s1_def consistent_def subs_ok_def destroy_ok_def awaiting_ok_def cache_ok_def)
  have eq: "settle p out s = reactions (map snd (filter (\<lambda>pc. fst pc = p) (awaiting s))) out s1"
    using True by (simp add: settle_def s1_def Let_def)
  show ?thesis unfolding eq
    by (rule consistent_quiet[OF reactions_quiet c1]) (use c1 in \<open>simp add: consistent_def reactions_cache_ok\<close>)
qed

lemma cleanup_length [simp]: "length (hooks (cleanup eff s)) = length (hooks s)"
  by (simp add: cleanup_def Let_def split: option.splits)

lemma consistent_append_hook:
  assumes "consistent s" "destroy h = None"
  shows "consistent (s\<lparr>hooks := hooks s @ [h]\<rparr>)" and "absent (length (hooks s)) (s\<lparr>hooks := hooks s @ [h]\<rparr>)"
proof -
  show "consistent (s\<lparr>hooks := hooks s @ [h]\<rparr>)"
    using assms unfolding consistent_def subs_ok_def destroy_ok_def awaiting_ok_def cache_ok_def
    by (auto simp: nth_append less_Suc_eq)
  show "absent (length (hooks s)) (s\<lparr>hooks := hooks s @ [h]\<rparr>)"
    using assms unfolding consistent_def subs_ok_def absent_def by fastforce
qed

lemma step_consistent: assumes "consistent s" shows "consistent (step s e)"
proof (cases e)
  case (Mount k)
  show ?thesis unfolding Mount step.simps
    by (rule useEffect_consistent[OF consistent_append_hook(1)[OF assms]])
       (simp_all add: consistent_append_hook(2)[OF assms, simplified] initial_hook_def)
next
  case (Rerender i k)
  show ?thesis
  proof (cases "i < length (hooks s)")
    case False
    with assms Rerender show ?thesis by simp
  next
    case True
    show ?thesis
    proof (cases "destroy (hooks s ! i)")
      case None
      with assms Rerender True show ?thesis by simp
    next
      case (Some eff)
      have a: "consistent (update_hook i (\<lambda>h. h\<lparr>cacheKey := k\<rparr>) (cleanup eff s))"
        by (rule consistent_update_hook[OF cleanup_consistent(1)[OF assms True Some]]) simp_all
      have b: "absent i (update_hook i (\<lambda>h. h\<lparr>cacheKey := k\<rparr>) (cleanup eff s))"
        using cleanup_consistent(2)[OF assms True Some] by simp
      have c: "i < length (hooks (update_hook i (\<lambda>h. h\<lparr>cacheKey := k\<rparr>) (cleanup eff s)))"
        using True by simp
      have "consistent (useEffect i (update_hook i (\<lambda>h. h\<lparr>cacheKey := k\<rparr>) (cleanup eff s)))"
        by (rule useEffect_consistent[OF a c b])
      with Rerender True Some show ?thesis by simp
    qed
  qed
next
  case (Unmount i)
  show ?thesis
  proof (cases "i < length (hooks s)")
    case False
    with assms Unmount show ?thesis by simp
  next
    case True
    show ?thesis
    proof (cases "destroy (hooks s ! i)")
      case None
      with assms Unmount True show ?thesis by simp
    next
      case (Some eff)
      let ?c = "cleanup eff s"
      have c: "consistent ?c" "absent i ?c" by (rule cleanup_consistent[OF assms True Some])+
      have len: "length (hooks ?c) = length (hooks s)" by simp
      have "subs_ok (update_hook i (\<lambda>h. h\<lparr>destroy := None, mounted := False\<rparr>) ?c)"
        using c unfolding consistent_def subs_ok_def absent_def
        by (auto simp: nth_list_update_if)
      moreover have "destroy_ok (update_hook i (\<lambda>h. h\<lparr>destroy := None, mounted := False\<rparr>) ?c)"
        using c unfolding consistent_def destroy_ok_def by (auto simp: nth_list_update_if)
      moreover have "awaiting_ok (update_hook i (\<lambda>h. h\<lparr>destroy := None, mounted := False\<rparr>) ?c)"
        by (rule awaiting_ok_transfer[of ?c]) (use c in \<open>simp_all add: consistent_def nth_list_update_if\<close>)
      moreover have "cache_ok (update_hook i (\<lambda>h. h\<lparr>destroy := None, mounted := False\<rparr>) ?c)"
        using c by (simp add: consistent_def cache_ok_def)
      ultimately show ?thesis using Unmount True Some by (simp add: consistent_def)
    qed
  qed
next
  case (Refetch i)
  with assms refetch_consistent[OF assms] show ?thesis by simp
next
  case (Settle p out)
  with settle_consistent[OF assms] show ?thesis by simp
qed

lemma run_consistent: "consistent s \<Longrightarrow> consistent (run s evs)"
  by (induction evs arbitrary: s) (simp_all add: step_consistent)

lemma reachable_consistent: "consistent (run init evs)"
  by (rule run_consistent[OF consistent_init])

section \<open>The entries of the cache\<close>

text \<open>
  C3, as amended.  Every entry found in the cache after any sequence of events has
  one of three shapes: pending with the promise and neither data nor error;
  resolved with no error and, still, the promise of the request, the data being
  whatever the producer resolved with (\<^verbatim>\<open>null\<close> included); rejected with the error
  only.  No entry with status idle is ever stored.
\<close>

theorem stored_entries_shape:
  assumes "asyncDataCache (run init evs) k = Some e"
  shows "entry_ok e"
  using reachable_consistent[of evs] assms by (simp add: consistent_def cache_ok_def)

theorem stored_entries_shape_witness:
  "asyncDataCache (run init [Mount (Some ''k''), Settle 0 (Fulfilled None), Mount (Some ''j'')]
       :: nat state) ''k''
     = Some \<lparr>promise = Some 0, status = Resolved, entry_data = None, entry_error = None\<rparr>
   \<and> entry_ok \<lparr>promise = Some 0, status = Resolved, entry_data = (None :: nat option),
                 entry_error = None\<rparr>"
proof -
  have h: "asyncDataCache (run init [Mount (Some ''k''), Settle 0 (Fulfilled None), Mount (Some ''j'')]
       :: nat state) ''k''
     = Some \<lparr>promise = Some 0, status = Resolved, entry_data = None, entry_error = None\<rparr>"
    by code_simp
  from h stored_entries_shape[OF h] show ?thesis by (rule conjI)
qed

text \<open>
  C3 as stated fails: the entry written when a fetch resolves has both the promise
  and the data populated.
\<close>

theorem resolved_entry_keeps_promise:
  "asyncDataCache (run init [Mount (Some ''k''), Settle 0 (Fulfilled (Some (5::nat)))]) ''k''
     = Some \<lparr>promise = Some 0, status = Resolved, entry_data = Some 5, entry_error = None\<rparr>
   \<and> \<not> spec_entry_invariant \<lparr>promise = Some 0, status = Resolved, entry_data = Some (5::nat),
                                 entry_error = None\<rparr>"
  by code_simp

section \<open>A settlement that is current\<close>

lemma handleCacheUpdate_keeps_exposed:
  assumes "eff_cacheKey cb = Some key" "asyncDataCache s key = Some ce"
    and "status ce = Resolved \<longrightarrow> entry_data ce = D \<and> E = None"
    and "status ce = Rejected \<longrightarrow> entry_error ce = E \<and> D = None"
    and "data (hooks s ! i) = D" "error (hooks s ! i) = E"
  shows "data (hooks (handleCacheUpdate cb s) ! i) = D \<and> error (hooks (handleCacheUpdate cb s) ! i) = E"
proof (cases "eff_hook cb = i")
  case False
  then show ?thesis using assms(5,6) by (simp add: handleCacheUpdate_other)
next
  case True
  then show ?thesis using assms
    by (simp add: handleCacheUpdate_def setters nth_list_update_if)
qed

lemma fold_handle_keeps_exposed:
  assumes "\<forall>cb \<in> set cbs. eff_cacheKey cb = Some key" "asyncDataCache s key = Some ce"
    and "status ce = Resolved \<longrightarrow> entry_data ce = D \<and> E = None"
    and "status ce = Rejected \<longrightarrow> entry_error ce = E \<and> D = None"
    and "data (hooks s ! i) = D" "error (hooks s ! i) = E"
  shows "data (hooks (fold handleCacheUpdate cbs s) ! i) = D
       \<and> error (hooks (fold handleCacheUpdate cbs s) ! i) = E"
  using assms
proof (induction cbs arbitrary: s)
  case Nil
  then show ?case by simp
next
  case (Cons cb cbs)
  have step: "data (hooks (handleCacheUpdate cb s) ! i) = D \<and> error (hooks (handleCacheUpdate cb s) ! i) = E"
    by (rule handleCacheUpdate_keeps_exposed[of cb key s ce]) (use Cons.prems in simp_all)
  have "data (hooks (fold handleCacheUpdate cbs (handleCacheUpdate cb s)) ! i) = D
       \<and> error (hooks (fold handleCacheUpdate cbs (handleCacheUpdate cb s)) ! i) = E"
    by (rule Cons.IH) (use Cons.prems step in simp_all)
  then show ?case by simp
qed

lemma notify_keeps_exposed:
  assumes "subs_ok s" "asyncDataCache s key = Some ce"
    and "status ce = Resolved \<longrightarrow> entry_data ce = D \<and> E = None"
    and "status ce = Rejected \<longrightarrow> entry_error ce = E \<and> D = None"
    and "data (hooks s ! i) = D" "error (hooks s ! i) = E"
  shows "data (hooks (fst (notifySubscribers (subscribers s) invoke key s)) ! i) = D
       \<and> error (hooks (fst (notifySubscribers (subscribers s) invoke key s)) ! i) = E"
proof (cases "subscribers s key")
  case None
  with assms(5,6) show ?thesis by (simp add: notify_invoke)
next
  case (Some cbs)
  with assms(1) have "\<forall>cb \<in> set cbs. eff_cacheKey cb = Some key" by (auto simp: subs_ok_def)
  from fold_handle_keeps_exposed[OF this assms(2-6)] Some show ?thesis by (simp add: notify_invoke)
qed

text \<open>
  Either the instance \<open>i\<close> shows \<open>D\<close> and \<open>E\<close> already, or the code that runs belongs
  to it, passes its test and the instance is mounted: in both cases the instance
  shows \<open>D\<close> and \<open>E\<close> once the two setters have been called on instance \<open>j\<close>.
\<close>

lemma setters_value:
  assumes "(data (hooks s ! i) = D \<and> error (hooks s ! i) = E)
           \<or> (j = i \<and> mounted (hooks s ! i) \<and> i < length (hooks s))"
  shows "data (hooks (setError j E (setData j D s)) ! i) = D"
    and "error (hooks (setError j E (setData j D s)) ! i) = E"
    and "data (hooks (setData j D (setError j E s)) ! i) = D"
    and "error (hooks (setData j D (setError j E s)) ! i) = E"
  using assms by (auto simp: setters nth_list_update_if)

lemma fetchData_try_value:
  assumes "subs_ok s" "r = latestRequestId (hooks s ! j)"
    and "(data (hooks s ! i) = v \<and> error (hooks s ! i) = None)
           \<or> (j = i \<and> mounted (hooks s ! i) \<and> i < length (hooks s))"
  shows "data (hooks (fst (fetchData_try j k r p v s)) ! i) = v
       \<and> error (hooks (fst (fetchData_try j k r p v s)) ! i) = None"
proof (cases "truthy k")
  case None
  with assms(2) setters_value(1,2)[OF assms(3)] show ?thesis by (simp add: fetchData_try_def)
next
  case (Some key)
  define ce :: "'a CacheEntry" where "ce = \<lparr>promise = Some p, status = Resolved,
                    entry_data = v, entry_error = None\<rparr>"
  define s1 where "s1 = setError j None (setData j v s)"
  define s2 where "s2 = setCacheEntryStatus j ce (cache_set key ce s1)"
  have q: "quiet s s2" unfolding s2_def s1_def by (intro quiet_then) simp
  have eq: "fetchData_try j k r p v s = notifySubscribers (subscribers s2) invoke key s2"
    using Some assms(2) by (simp add: fetchData_try_def Let_def s2_def s1_def ce_def)
  have "data (hooks (fst (notifySubscribers (subscribers s2) invoke key s2)) ! i) = v
       \<and> error (hooks (fst (notifySubscribers (subscribers s2) invoke key s2)) ! i) = None"
  proof (rule notify_keeps_exposed[of s2 key ce])
    show "subs_ok s2" by (rule quiet_subs_ok[OF q assms(1)])
    show "asyncDataCache s2 key = Some ce" by (simp add: s2_def setCacheEntryStatus_def)
    show "data (hooks s2 ! i) = v" "error (hooks s2 ! i) = None"
      using setters_value(1,2)[OF assms(3)]
      by (auto simp: s2_def s1_def[symmetric] setCacheEntryStatus_def nth_list_update_if)
  qed (simp_all add: ce_def)
  then show ?thesis by (simp add: eq)
qed

lemma fetchData_catch_value:
  assumes "subs_ok s" "r = latestRequestId (hooks s ! j)" "errorToSet err = Inr e"
    and "(data (hooks s ! i) = None \<and> error (hooks s ! i) = Some e)
           \<or> (j = i \<and> mounted (hooks s ! i) \<and> i < length (hooks s))"
  shows "data (hooks (fst (fetchData_catch j k r err s)) ! i) = None
       \<and> error (hooks (fst (fetchData_catch j k r err s)) ! i) = Some e"
proof (cases "truthy k")
  case None
  with assms(2,3) setters_value(3,4)[OF assms(4)] show ?thesis by (simp add: fetchData_catch_def)
next
  case (Some key)
  define ce :: "'a CacheEntry" where "ce = \<lparr>promise = None, status = Rejected,
                    entry_data = None, entry_error = Some e\<rparr>"
  define s1 where "s1 = setData j None (setError j (Some e) s)"
  define s2 where "s2 = setCacheEntryStatus j ce (cache_set key ce s1)"
  have q: "quiet s s2" unfolding s2_def s1_def by (intro quiet_then) simp
  have eq: "fetchData_catch j k r err s = notifySubscribers (subscribers s2) invoke key s2"
    using Some assms(2,3) by (simp add: fetchData_catch_def Let_def s2_def s1_def ce_def)
  have "data (hooks (fst (notifySubscribers (subscribers s2) invoke key s2)) ! i) = None
       \<and> error (hooks (fst (notifySubscribers (subscribers s2) invoke key s2)) ! i) = Some e"
  proof (rule notify_keeps_exposed[of s2 key ce])
    show "subs_ok s2" by (rule quiet_subs_ok[OF q assms(1)])
    show "asyncDataCache s2 key = Some ce" by (simp add: s2_def setCacheEntryStatus_def)
    show "data (hooks s2 ! i) = None" "error (hooks s2 ! i) = Some e"
      using setters_value(3,4)[OF assms(4)]
      by (auto simp: s2_def s1_def[symmetric] setCacheEntryStatus_def nth_list_update_if)
  qed (simp_all add: ce_def)
  then show ?thesis by (simp add: eq)
qed

lemma fetchData_finally_value:
  "data (hooks (fetchData_finally j r s) ! i) = data (hooks s ! i)"
  "error (hooks (fetchData_finally j r s) ! i) = error (hooks s ! i)"
  by (simp_all add: fetchData_finally_def setters nth_list_update_if)

lemma fetchData_settled_value:
  assumes "subs_ok s" "shown out = Some (D, E)"
    and "(data (hooks s ! i) = D \<and> error (hooks s ! i) = E)
           \<or> (j = i \<and> r = latestRequestId (hooks s ! j) \<and> mounted (hooks s ! i) \<and> i < length (hooks s))"
  shows "data (hooks (fst (fetchData_settled j k r p out s)) ! i) = D
       \<and> error (hooks (fst (fetchData_settled j k r p out s)) ! i) = E"
proof (cases "r = latestRequestId (hooks s ! j)")
  case False
  with assms(3) show ?thesis by (simp add: fetchData_settled_stale)
next
  case True
  from assms(3) have a: "(data (hooks s ! i) = D \<and> error (hooks s ! i) = E)
           \<or> (j = i \<and> mounted (hooks s ! i) \<and> i < length (hooks s))" by blast
  show ?thesis
  proof (cases out)
    case (Fulfilled v)
    with assms(2) have "D = v" "E = None" by simp_all
    with fetchData_try_value[OF assms(1) True, where i = i and v = v and k = k and p = p] a Fulfilled
    show ?thesis
      by (simp add: fetchData_settled_eq fetchData_finally_value)
  next
    case (Rejects err)
    with assms(2) obtain e where e: "errorToSet err = Inr e" "D = None" "E = Some e"
      by (cases "errorToSet err") simp_all
    with fetchData_catch_value[OF assms(1) True e(1), where i = i and k = k] a Rejects show ?thesis
      by (simp add: fetchData_settled_eq fetchData_finally_value)
  qed
qed

lemma initializeFetch_settled_value:
  assumes "shown out = Some (D, E)"
    and "(data (hooks s ! i) = D \<and> error (hooks s ! i) = E)
           \<or> (eff_hook eff = i \<and> run_is_current eff s \<and> mounted (hooks s ! i) \<and> i < length (hooks s))"
  shows "data (hooks (fst (initializeFetch_settled eff out s)) ! i) = D
       \<and> error (hooks (fst (initializeFetch_settled eff out s)) ! i) = E"
proof (cases "run_is_current eff s")
  case False
  with assms(2) show ?thesis by (simp add: initializeFetch_settled_not_current)
next
  case True
  from assms(2) have a: "(data (hooks s ! i) = D \<and> error (hooks s ! i) = E)
           \<or> (eff_hook eff = i \<and> mounted (hooks s ! i) \<and> i < length (hooks s))" by blast
  have fin: "data (hooks (if b then setIsLoading j False t else t) ! i) = data (hooks t ! i)
       \<and> error (hooks (if b then setIsLoading j False t else t) ! i) = error (hooks t ! i)"
    for b j and t :: "'a state"
    by (simp add: setters nth_list_update_if)
  show ?thesis
  proof (cases out)
    case (Fulfilled v)
    with assms(1) have "D = v" "E = None" by simp_all
    with setters_value(1,2)[OF a] True Fulfilled show ?thesis
      by (simp add: initializeFetch_settled_def Let_def fin)
  next
    case (Rejects err)
    with assms(1) obtain e where e: "errorToSet err = Inr e" "D = None" "E = Some e"
      by (cases "errorToSet err") simp_all
    with setters_value(3,4)[OF a] True Rejects show ?thesis
      by (simp add: initializeFetch_settled_def Let_def fin)
  qed
qed

lemma resume_value:
  assumes "subs_ok s" "shown out = Some (D, E)"
    and "(data (hooks s ! i) = D \<and> error (hooks s ! i) = E)
           \<or> (cont_hook c = i \<and> current c s \<and> mounted (hooks s ! i) \<and> i < length (hooks s))"
  shows "data (hooks (fst (resume c out s)) ! i) = D \<and> error (hooks (fst (resume c out s)) ! i) = E"
proof (cases c)
  case (FetchData_await j k r p)
  with assms(3) have "(data (hooks s ! i) = D \<and> error (hooks s ! i) = E)
           \<or> (j = i \<and> r = latestRequestId (hooks s ! j) \<and> mounted (hooks s ! i) \<and> i < length (hooks s))"
    by auto
  from fetchData_settled_value[OF assms(1,2) this] FetchData_await show ?thesis by simp
next
  case (InitializeFetch_await eff)
  with assms(3) have "(data (hooks s ! i) = D \<and> error (hooks s ! i) = E)
           \<or> (eff_hook eff = i \<and> run_is_current eff s \<and> mounted (hooks s ! i) \<and> i < length (hooks s))"
    by auto
  from initializeFetch_settled_value[OF assms(2) this] InitializeFetch_await show ?thesis by simp
qed

lemma current_hooks: "hooks s' = hooks s \<Longrightarrow> current c s' = current c s"
  by (cases c) (simp_all add: run_is_current_def)

lemma quiet_current:
  assumes "quiet s s'" "cont_hook c < length (hooks s)"
  shows "current c s' = current c s"
  using quiet_latest[OF assms] quiet_cleanupCalled[OF assms]
  by (cases c) (simp_all add: run_is_current_def)

lemma resume_current_not_loading:
  assumes "current c s" "mounted (hooks s ! cont_hook c)" "cont_hook c < length (hooks s)"
  shows "\<not> isLoading (hooks (fst (resume c out s)) ! cont_hook c)"
proof (cases c)
  case (FetchData_await i k r p)
  define t where "t = (case out of Fulfilled v \<Rightarrow> fst (fetchData_try i k r p v s)
                                     | Rejects err \<Rightarrow> fst (fetchData_catch i k r err s))"
  have q: "quiet s t"
    by (cases out) (simp_all add: t_def fetchData_try_quiet fetchData_catch_quiet)
  from assms FetchData_await have i: "i < length (hooks s)" "r = latestRequestId (hooks s ! i)"
    "mounted (hooks s ! i)" by simp_all
  have "\<not> isLoading (hooks (fetchData_finally i r t) ! i)"
    using quiet_latest[OF q i(1)] quiet_mounted[OF q i(1)] quiet_length[OF q] i
    by (simp add: fetchData_finally_def setters)
  then show ?thesis unfolding FetchData_await by (simp add: fetchData_settled_eq t_def)
next
  case (InitializeFetch_await eff)
  let ?i = "eff_hook eff"
  define t where "t = fst (case out of
               Fulfilled result \<Rightarrow>
                 (if run_is_current eff s then setError ?i None (setData ?i result s) else s, None)
             | Rejects err \<Rightarrow>
                 if run_is_current eff s then
                   (case errorToSet err of
                      Inl thrown \<Rightarrow> (s, Some thrown)
                    | Inr errorObject \<Rightarrow>
                        (setData ?i None (setError ?i (Some errorObject) s), None))
                 else (s, None))"
  have q: "quiet s t"
    by (cases out) (auto simp: t_def split: sum.splits intro!: quiet_then)
  from assms InitializeFetch_await have i: "?i < length (hooks s)" "run_is_current eff s"
    "mounted (hooks s ! ?i)" by simp_all
  have c: "run_is_current eff t"
    using quiet_latest[OF q i(1)] quiet_cleanupCalled[OF q i(1)] i(2) by (auto simp: run_is_current_def)
  have "fst (initializeFetch_settled eff out s) = (if run_is_current eff t then setIsLoading ?i False t else t)"
    by (simp add: initializeFetch_settled_def Let_def split_beta t_def)
  then show ?thesis unfolding InitializeFetch_await
    using c quiet_mounted[OF q i(1)] quiet_length[OF q] i by (simp add: setters)
qed

lemma microtask_subs_ok: "subs_ok s \<Longrightarrow> subs_ok (microtask c out s)"
  by (rule quiet_subs_ok[OF microtask_quiet])

lemma reactions_value:
  assumes "subs_ok s" "shown out = Some (D, E)"
    and "data (hooks s ! i) = D" "error (hooks s ! i) = E"
  shows "data (hooks (reactions cs out s) ! i) = D \<and> error (hooks (reactions cs out s) ! i) = E"
  using assms(1,3,4)
proof (induction cs arbitrary: s)
  case Nil
  then show ?case by simp
next
  case (Cons c cs)
  have "data (hooks (microtask c out s) ! i) = D \<and> error (hooks (microtask c out s) ! i) = E"
    using resume_value[OF Cons.prems(1) assms(2), where i = i and c = c] Cons.prems(2,3) by simp
  with Cons.IH[OF microtask_subs_ok[OF Cons.prems(1)]] show ?case by simp
qed

lemma reactions_not_loading:
  "\<not> isLoading (hooks s ! i) \<Longrightarrow> \<not> isLoading (hooks (reactions cs out s) ! i)"
  by (rule quiet_not_loading[OF reactions_quiet])

lemma reactions_current:
  assumes "subs_ok s" "shown out = Some (D, E)" "c \<in> set cs"
    and "current c s" "mounted (hooks s ! cont_hook c)" "cont_hook c < length (hooks s)"
  shows "exposed (hooks (reactions cs out s) ! cont_hook c) = (D, False, E)"
  using assms(1,3-6)
proof (induction cs arbitrary: s)
  case Nil
  then show ?case by simp
next
  case (Cons c' cs)
  let ?t = "microtask c' out s"
  have q: "quiet s ?t" by (rule microtask_quiet)
  show ?case
  proof (cases "c' = c")
    case True
    have v: "data (hooks ?t ! cont_hook c) = D \<and> error (hooks ?t ! cont_hook c) = E"
      using resume_value[OF Cons.prems(1) assms(2), where i = "cont_hook c" and c = c]
        Cons.prems(3-5) True by simp
    have l: "\<not> isLoading (hooks ?t ! cont_hook c)"
      using resume_current_not_loading[OF Cons.prems(3-5), where out = out] True by simp
    from reactions_value[OF microtask_subs_ok[OF Cons.prems(1)] assms(2),
        where i = "cont_hook c" and cs = cs] v
      reactions_not_loading[OF l, where cs = cs and out = out]
    show ?thesis by (simp add: exposed_def)
  next
    case False
    with Cons.prems(2) have m: "c \<in> set cs" by simp
    have "exposed (hooks (reactions cs out ?t) ! cont_hook c) = (D, False, E)"
    proof (rule Cons.IH[OF microtask_subs_ok[OF Cons.prems(1)] m])
      show "current c ?t" using quiet_current[OF q Cons.prems(5)] Cons.prems(3) by simp
      show "mounted (hooks ?t ! cont_hook c)"
        using quiet_mounted[OF q Cons.prems(5)] Cons.prems(4) by simp
      show "cont_hook c < length (hooks ?t)" using quiet_length[OF q] Cons.prems(5) by simp
    qed
    then show ?thesis by simp
  qed
qed

lemma reactions_handled:
  "shown out \<noteq> None \<Longrightarrow> unhandledRejections (reactions cs out s) = unhandledRejections s"
proof (induction cs arbitrary: s)
  case Nil
  show ?case by simp
next
  case (Cons c cs)
  from Cons.prems have "snd (resume c out s) = None"
    by (cases out) (auto simp: resume_throw split: sum.splits)
  then have "unhandledRejections (microtask c out s) = unhandledRejections s"
    by (simp add: microtask_unhandled)
  with Cons.IH[OF Cons.prems, of "microtask c out s"] show ?case by simp
qed


lemma settle_pending:
  "p < length (promises s) \<Longrightarrow> promises s ! p = None \<Longrightarrow>
     settle p out s = reactions (map snd (filter (\<lambda>pc. fst pc = p) (awaiting s))) out
        (s\<lparr>promises := (promises s)[p := Some out],
           awaiting := filter (\<lambda>pc. fst pc \<noteq> p) (awaiting s)\<rparr>)"
  by (simp add: settle_def Let_def)


lemma settle_current:
  assumes "subs_ok s" "p < length (promises s)" "promises s ! p = None"
    and "(p, c) \<in> set (awaiting s)" "current c s" "mounted (hooks s ! cont_hook c)"
    and "cont_hook c < length (hooks s)" "shown out = Some (D, E)"
  shows "exposed (hooks (settle p out s) ! cont_hook c) = (D, False, E)"
    and "unhandledRejections (settle p out s) = unhandledRejections s"
proof -
  let ?s1 = "s\<lparr>promises := (promises s)[p := Some out],
           awaiting := filter (\<lambda>pc. fst pc \<noteq> p) (awaiting s)\<rparr>"
  let ?cs = "map snd (filter (\<lambda>pc. fst pc = p) (awaiting s))"
  have m: "c \<in> set ?cs" using assms(4) by force
  have s1: "subs_ok ?s1" using assms(1) by (simp add: subs_ok_def)
  have c1: "current c ?s1" using assms(5) current_hooks[of ?s1 s c] by simp
  show "exposed (hooks (settle p out s) ! cont_hook c) = (D, False, E)"
    unfolding settle_pending[OF assms(2,3)]
    by (rule reactions_current[OF s1 assms(8) m c1]) (use assms(6,7) in simp_all)
  show "unhandledRejections (settle p out s) = unhandledRejections s"
    unfolding settle_pending[OF assms(2,3)] using assms(8) by (simp add: reactions_handled)
qed

section \<open>Operations of one instance and the others\<close>

lemma evolves_refl [simp]: "evolves h h"
  by (simp add: evolves_def)



lemma touches_refl [simp]: "touches j s s"
  by (simp add: touches_def)



















lemma cleanup_awaiting [simp]: "awaiting (cleanup eff s) = awaiting s"
  by (simp add: cleanup_def Let_def split: option.splits)


lemma cleanup_unhandled [simp]: "unhandledRejections (cleanup eff s) = unhandledRejections s"
  by (simp add: cleanup_def Let_def split: option.splits)

lemma cleanup_exposed [simp]: "exposed (hooks (cleanup eff s) ! i) = exposed (hooks s ! i)"
  by (simp add: cleanup_def Let_def exposed_def nth_list_update_if split: option.splits)



text \<open>
  Whatever happens, the request counter of an instance does not go down, and an
  unmounted instance stays as it is.
\<close>

lemma progress_refl [simp]: "progress s s"
  by (simp add: progress_def)












section \<open>Teardown\<close>




section \<open>Rejections\<close>

text \<open>
  A rejection with a value that is an \<^verbatim>\<open>Error\<close> or that \<^verbatim>\<open>String\<close> can convert, of
  a promise awaited by code of a mounted instance that passes its test: after the
  settlement the instance shows the \<^verbatim>\<open>Error\<close>, no data, and is not loading, and no
  exception has escaped.
\<close>

lemma convertible_rejection_is_shown:
  assumes "p < length (promises (run init evs))" and "promises (run init evs) ! p = None"
    and "(p, c) \<in> set (awaiting (run init evs))" and "current c (run init evs)"
    and "mounted (hooks (run init evs) ! cont_hook c)" and "errorToSet v = Inr e"
  shows "exposed (hooks (step (run init evs) (Settle p (Rejects v))) ! cont_hook c) = (None, False, Some e)"
    and "unhandledRejections (step (run init evs) (Settle p (Rejects v))) = unhandledRejections (run init evs)"
proof -
  let ?s = "run init evs"
  have c: "consistent ?s" by (rule reachable_consistent)
  then have s: "subs_ok ?s" by (simp add: consistent_def)
  from c assms(3) have l: "cont_hook c < length (hooks ?s)"
    by (auto simp: consistent_def awaiting_ok_def)
  have sh: "shown (Rejects v :: 'a outcome) = Some (None, Some e)" using assms(6) by simp
  from settle_current[OF s assms(1-5) l sh]
  show "exposed (hooks (step ?s (Settle p (Rejects v))) ! cont_hook c) = (None, False, Some e)"
    and "unhandledRejections (step ?s (Settle p (Rejects v))) = unhandledRejections ?s"
    by (simp_all del: run.simps)
qed

text \<open>
  A rejection with a value on which \<^verbatim>\<open>String\<close> throws, of the first request of an
  instance, whatever its key: the \<^verbatim>\<open>catch\<close> block evaluates
  \<^verbatim>\<open>new Error(String(err))\<close>, which throws before \<^verbatim>\<open>setError\<close> is reached; the
  \<^verbatim>\<open>finally\<close> block sets \<^verbatim>\<open>isLoading\<close> to false and the exception leaves
  \<^verbatim>\<open>fetchData\<close>.
\<close>

lemma unconvertible_rejection_of_first_request:
  "exposed (hooks (run init [Mount k, Settle 0 (Rejects (JUnconvertible thrown))]) ! 0)
     = (None, False, None)
   \<and> unhandledRejections (run init [Mount k, Settle 0 (Rejects (JUnconvertible thrown))])
     = [(0, thrown)]"
  by (cases "truthy k")
     (simp_all add: start_defs effect_defs settle_defs setters microtask_def exposed_def Let_def)

text \<open>
  C8.  The claim holds for the rejection values that are an \<^verbatim>\<open>Error\<close> or that
  \<^verbatim>\<open>String\<close> can convert, and fails for the others.  An instance mounts with the
  key \<^verbatim>\<open>k\<close> and its producer's promise rejects with \<^verbatim>\<open>Object.create(null)\<close>, on
  which \<^verbatim>\<open>String\<close> throws a \<^verbatim>\<open>TypeError\<close>.  The request is current, yet after the
  settlement the instance shows no error (and no data, and is not loading), the
  \<^verbatim>\<open>TypeError\<close> has left \<^verbatim>\<open>fetchData\<close> as the rejection of a promise that nothing
  handles, and the entry of the key is still the pending one.
\<close>

theorem unconvertible_rejection_escapes:
  "js_String nullPrototypeObject = Inl typeError
   \<and> exposed (hooks (run init [Mount (Some ''k''), Settle 0 (Rejects nullPrototypeObject)]
                       :: nat state) ! 0)
       = (None, False, None)
   \<and> unhandledRejections (run init [Mount (Some ''k''), Settle 0 (Rejects nullPrototypeObject)]
                            :: nat state)
       = [(0, typeError)]
   \<and> asyncDataCache (run init [Mount (Some ''k''), Settle 0 (Rejects nullPrototypeObject)]
                       :: nat state) ''k''
       = Some \<lparr>promise = Some 0, status = Pending, entry_data = None, entry_error = None\<rparr>"
  by code_simp

section \<open>The race between requests\<close>




section \<open>Before the first settlement\<close>

lemma pristine_cache:
  "pristine s \<Longrightarrow> asyncDataCache s k = Some e \<Longrightarrow>
     status e = Pending \<and> (\<exists>p. promise e = Some p \<and> p < length (promises s) \<and> promises s ! p = None)"
  unfolding pristine_def by blast

lemma pristine_init: "pristine init"
  by (simp add: pristine_def init_def)

lemma pristine_update_hook:
  assumes "pristine s" "\<And>h. initial_exposed h \<Longrightarrow> initial_exposed (f h)"
  shows "pristine (update_hook i f s)"
proof -
  have "initial_exposed h" if "h \<in> set ((hooks s)[i := f (hooks s ! i)])" for h
  proof (cases "i < length (hooks s)")
    case True
    from that have "h = f (hooks s ! i) \<or> h \<in> set (hooks s)"
      using set_update_subset_insert[of "hooks s" i "f (hooks s ! i)"] by auto
    with True assms show ?thesis by (auto simp: pristine_def)
  next
    case False
    with that assms(1) show ?thesis by (simp add: list_update_beyond pristine_def)
  qed
  with assms(1) show ?thesis by (simp add: pristine_def)
qed

lemma pristine_setters:
  "pristine s \<Longrightarrow> pristine (setIsLoading i True s)"
  "pristine s \<Longrightarrow> pristine (setError i None s)"
  "pristine s \<Longrightarrow> pristine (setCacheEntryStatus i e s)"
  unfolding setters by (erule pristine_update_hook, simp add: initial_exposed_def)+

lemma pristine_request: "pristine s \<Longrightarrow> pristine (fetchData_request i k r s)"
proof -
  assume p: "pristine s"
  define s1 where "s1 = s\<lparr>promises := promises s @ [None],
                 calls := calls s @ [\<lparr>inv_hook = i, inv_cacheKey = k,
                   inv_requestId = r, inv_promise = length (promises s)\<rparr>]\<rparr>"
  have p1: "pristine s1"
    unfolding pristine_def
  proof (intro conjI allI impI ballI)
    fix h assume "h \<in> set (hooks s1)"
    with p show "initial_exposed h" by (simp add: pristine_def s1_def)
  next
    fix k e assume "asyncDataCache s1 k = Some e"
    then have "asyncDataCache s k = Some e" by (simp add: s1_def)
    from pristine_cache[OF p this] show "status e = Pending" by simp
    from pristine_cache[OF p \<open>asyncDataCache s k = Some e\<close>]
    obtain q where "promise e = Some q" "q < length (promises s)" by blast
    then show "\<exists>q. promise e = Some q \<and> q < length (promises s1)" by (simp add: s1_def)
  next
    fix q assume "q < length (promises s1)"
    with p show "promises s1 ! q = None"
      by (auto simp: pristine_def s1_def nth_append less_Suc_eq)
  qed
  define s2 where "s2 = (case truthy k of None \<Rightarrow> s1
      | Some key \<Rightarrow> setCacheEntryStatus i \<lparr>promise = Some (length (promises s)), status = Pending,
                           entry_data = None, entry_error = None\<rparr>
            (cache_set key \<lparr>promise = Some (length (promises s)), status = Pending,
                           entry_data = None, entry_error = None\<rparr> s1))"
  have p2: "pristine s2"
  proof (cases "truthy k")
    case None
    with p1 show ?thesis by (simp add: s2_def)
  next
    case (Some key)
    have "pristine (cache_set key \<lparr>promise = Some (length (promises s)), status = Pending,
                           entry_data = None, entry_error = None\<rparr> s1)"
      using p1 by (auto simp: pristine_def s1_def)
    with Some show ?thesis by (simp add: s2_def pristine_setters)
  qed
  have eq: "fetchData_request i k r s = await (length (promises s))
      (FetchData_await i k r (length (promises s))) s2"
    by (simp add: fetchData_request_def Let_def s2_def s1_def cong: option.case_cong)
  show ?thesis unfolding eq using p2 by (simp add: pristine_def)
qed

lemma pristine_fetchData: "pristine s \<Longrightarrow> pristine (fetchData i k r s)"
proof -
  assume p: "pristine s"
  define s1 where "s1 = setError i None (setIsLoading i True s)"
  have p1: "pristine s1" unfolding s1_def by (intro pristine_setters p)
  have nores: "status cached \<noteq> Resolved" if "asyncDataCache s1 key = Some cached" for key cached
    using pristine_cache[OF p1 that] by simp
  show ?thesis
  proof (cases "truthy k")
    case None
    then show ?thesis using pristine_request[OF p1] by (simp add: fetchData_def s1_def)
  next
    case (Some key)
    show ?thesis
    proof (cases "asyncDataCache s1 key")
      case None
      with Some show ?thesis using pristine_request[OF p1]
        by (simp add: fetchData_def s1_def)
    next
      case (Some cached)
      with \<open>truthy k = Some key\<close> nores[OF Some] p1 pristine_request[OF p1] show ?thesis
        by (simp add: fetchData_def s1_def[symmetric] Let_def)
    qed
  qed
qed

lemma setIsLoading_promises [simp]: "promises (setIsLoading i b s) = promises s"
  by (simp add: setters)

lemma pristine_initializeFetch:
  assumes "pristine s"
  shows "pristine (fst (initializeFetch eff s))" and "snd (initializeFetch eff s) = None"
proof -
  let ?i = "eff_hook eff"
  let ?r = "eff_requestId eff"
  let ?s1 = "update_hook ?i (\<lambda>h. h\<lparr>latestRequestId := ?r\<rparr>) s"
  have p1: "pristine ?s1"
    by (rule pristine_update_hook[OF assms]) (simp add: initial_exposed_def)
  have f: "pristine (fetchData ?i (eff_cacheKey eff) ?r ?s1)" by (rule pristine_fetchData[OF p1])
  have "pristine (fst (initializeFetch eff s)) \<and> snd (initializeFetch eff s) = None"
  proof (cases "truthy (eff_cacheKey eff)")
    case None
    with f show ?thesis by (simp add: initializeFetch_def Let_def)
  next
    case (Some key)
    show ?thesis
    proof (cases "asyncDataCache s key")
      case None
      with Some f show ?thesis by (simp add: initializeFetch_def Let_def)
    next
      case (Some cached)
      then have "asyncDataCache ?s1 key = Some cached" by simp
      from pristine_cache[OF p1 this] obtain p where c: "status cached = Pending"
        "promise cached = Some p" "p < length (promises s)" "promises s ! p = None"
        by auto
      have a: "pristine (await p (InitializeFetch_await eff) (setIsLoading ?i True ?s1))"
        using pristine_setters(1)[OF p1, of ?i] by (simp add: pristine_def)
      show ?thesis
      proof (cases "promise (cacheEntryStatus (hooks ?s1 ! ?i)) = promise cached")
        case True
        with \<open>truthy (eff_cacheKey eff) = Some key\<close> Some c a show ?thesis
          by (simp add: initializeFetch_def Let_def)
      next
        case False
        with \<open>truthy (eff_cacheKey eff) = Some key\<close> Some c f show ?thesis
          by (simp add: initializeFetch_def Let_def)
      qed
    qed
  qed
  then show "pristine (fst (initializeFetch eff s))" and "snd (initializeFetch eff s) = None"
    by simp_all
qed

lemma pristine_useEffect: assumes "pristine s" shows "pristine (useEffect i s)"
proof -
  define r where "r = latestRequestId (hooks s ! i) + 1"
  define eff where "eff = \<lparr>eff_hook = i, eff_requestId = r, eff_cacheKey = cacheKey (hooks s ! i)\<rparr>"
  define s1 where "s1 = update_hook i (\<lambda>h. h\<lparr>cleanupCalled := (cleanupCalled h)(r := False)\<rparr>) s"
  define s2 where "s2 = fst (initializeFetch eff s1)"
  define s3 where "s3 = (case truthy (eff_cacheKey eff) of None \<Rightarrow> s2
                | Some key \<Rightarrow> s2\<lparr>subscribers := subscribe key eff (subscribers s2)\<rparr>)"
  define s4 where "s4 = update_hook i (\<lambda>h. h\<lparr>destroy := Some eff\<rparr>) s3"
  have eq: "useEffect i s = (case snd (initializeFetch eff s1) of None \<Rightarrow> s4
                | Some out \<Rightarrow> microtask (InitializeFetch_await eff) out s4)"
    by (simp add: useEffect_def Let_def split_beta r_def eff_def s1_def s2_def s3_def s4_def
        cong: option.case_cong)
  have p1: "pristine s1" unfolding s1_def
    by (rule pristine_update_hook[OF assms]) (simp add: initial_exposed_def)
  have p2: "pristine s2" unfolding s2_def by (rule pristine_initializeFetch(1)[OF p1])
  have p3: "pristine s3" using p2 by (cases "truthy (eff_cacheKey eff)") (simp_all add: s3_def pristine_def)
  have p4: "pristine s4" unfolding s4_def
    by (rule pristine_update_hook[OF p3]) (simp add: initial_exposed_def)
  show ?thesis using p4 pristine_initializeFetch(2)[OF p1, of eff] by (simp add: eq)
qed

lemma pristine_cleanup: assumes "pristine s" shows "pristine (cleanup eff s)"
proof -
  have "pristine (update_hook (eff_hook eff)
                 (\<lambda>h. h\<lparr>cleanupCalled := (cleanupCalled h)(eff_requestId eff := True),
                        latestRequestId := latestRequestId h + 1\<rparr>) s)"
    by (rule pristine_update_hook[OF assms]) (simp add: initial_exposed_def)
  then show ?thesis
    by (cases "truthy (eff_cacheKey eff)") (simp_all add: cleanup_def pristine_def)
qed

lemma pristine_refetch: assumes "pristine s" shows "pristine (refetch i s)"
proof -
  define r where "r = latestRequestId (hooks s ! i) + 1"
  define k where "k = cacheKey (hooks s ! i)"
  define s1 where "s1 = update_hook i (\<lambda>h. h\<lparr>latestRequestId := r\<rparr>) s"
  define s2 where "s2 = (case truthy k of None \<Rightarrow> s1
                | Some key \<Rightarrow> setCacheEntryStatus i idleEntry (cache_delete key s1))"
  have eq: "refetch i s = fetchData i k r s2"
    by (simp add: refetch_def Let_def r_def k_def s1_def s2_def cong: option.case_cong)
  have p1: "pristine s1" unfolding s1_def
    by (rule pristine_update_hook[OF assms]) (simp add: initial_exposed_def)
  have p2: "pristine s2"
  proof (cases "truthy k")
    case None
    with p1 show ?thesis by (simp add: s2_def)
  next
    case (Some key)
    have "pristine (cache_delete key s1)" using p1 by (simp add: pristine_def)
    with Some show ?thesis by (simp add: s2_def pristine_setters)
  qed
  show ?thesis unfolding eq by (rule pristine_fetchData[OF p2])
qed

lemma pristine_step: assumes "pristine s" "\<not> settles e" shows "pristine (step s e)"
proof (cases e)
  case (Mount k)
  have "pristine (s\<lparr>hooks := hooks s @ [initial_hook k]\<rparr>)"
    using assms(1) by (simp add: pristine_def initial_exposed_def initial_hook_def)
  then show ?thesis unfolding Mount by (simp add: pristine_useEffect)
next
  case (Rerender i k)
  have "pristine (update_hook i (\<lambda>h. h\<lparr>cacheKey := k\<rparr>) (cleanup eff s))" for eff
    by (rule pristine_update_hook[OF pristine_cleanup[OF assms(1)]]) (simp add: initial_exposed_def)
  then show ?thesis unfolding Rerender using assms(1)
    by (simp add: pristine_useEffect split: option.splits)
next
  case (Unmount i)
  have "pristine (update_hook i (\<lambda>h. h\<lparr>destroy := None, mounted := False\<rparr>) (cleanup eff s))" for eff
    by (rule pristine_update_hook[OF pristine_cleanup[OF assms(1)]]) (simp add: initial_exposed_def)
  then show ?thesis unfolding Unmount using assms(1) by (simp split: option.splits)
next
  case (Refetch i)
  then show ?thesis using assms(1) by (simp add: pristine_refetch)
next
  case (Settle p out)
  with assms(2) show ?thesis by simp
qed

lemma pristine_run:
  "pristine s \<Longrightarrow> \<forall>e \<in> set evs. \<not> settles e \<Longrightarrow> pristine (run s evs)"
  by (induction evs arbitrary: s) (simp_all add: pristine_step)

lemma fetchData_request_exposed:
  "data (hooks (fetchData_request i k r s) ! j) = data (hooks s ! j)
   \<and> isLoading (hooks (fetchData_request i k r s) ! j) = isLoading (hooks s ! j)
   \<and> error (hooks (fetchData_request i k r s) ! j) = error (hooks s ! j)"
  by (cases "truthy k") (simp_all add: fetchData_request_def Let_def setters nth_list_update_if)

lemma fetchData_exposed:
  assumes "i < length (hooks s)" "mounted (hooks s ! i)"
    and "\<And>key e. truthy k = Some key \<Longrightarrow> asyncDataCache s key = Some e \<Longrightarrow> status e \<noteq> Resolved"
  shows "data (hooks (fetchData i k r s) ! i) = data (hooks s ! i)
       \<and> isLoading (hooks (fetchData i k r s) ! i) = True
       \<and> error (hooks (fetchData i k r s) ! i) = None"
proof -
  let ?s1 = "setError i None (setIsLoading i True s)"
  have e1: "data (hooks ?s1 ! i) = data (hooks s ! i)" "isLoading (hooks ?s1 ! i) = True"
    "error (hooks ?s1 ! i) = None"
    using assms(1,2) by (simp_all add: setters)
  show ?thesis
  proof (cases "truthy k")
    case None
    then show ?thesis using e1 by (simp add: fetchData_def fetchData_request_exposed)
  next
    case (Some key)
    show ?thesis
    proof (cases "asyncDataCache s key")
      case None
      with Some show ?thesis using e1 by (simp add: fetchData_def fetchData_request_exposed setters)
    next
      case (Some cached)
      from assms(3)[OF \<open>truthy k = Some key\<close> Some] have "status cached \<noteq> Resolved" .
      with \<open>truthy k = Some key\<close> Some e1 show ?thesis
        by (simp add: fetchData_def fetchData_request_exposed Let_def setters)
    qed
  qed
qed

lemma mount_exposed:
  assumes "cache_ok s"
    and "\<And>key e. truthy k = Some key \<Longrightarrow> asyncDataCache s key = Some e \<Longrightarrow> status e \<noteq> Resolved"
  shows "data (hooks (step s (Mount k)) ! length (hooks s)) = None
       \<and> isLoading (hooks (step s (Mount k)) ! length (hooks s)) = True
       \<and> error (hooks (step s (Mount k)) ! length (hooks s)) = None"
proof -
  let ?n = "length (hooks s)"
  let ?s0 = "s\<lparr>hooks := hooks s @ [initial_hook k]\<rparr>"
  let ?eff = "\<lparr>eff_hook = ?n, eff_requestId = 1, eff_cacheKey = k\<rparr>"
  let ?s1 = "update_hook ?n (\<lambda>h. h\<lparr>cleanupCalled := (cleanupCalled h)(1 := False)\<rparr>) ?s0"
  let ?s1' = "update_hook ?n (\<lambda>h. h\<lparr>latestRequestId := 1\<rparr>) ?s1"
  have h1: "data (hooks ?s1' ! ?n) = None" "isLoading (hooks ?s1' ! ?n) = True"
    "error (hooks ?s1' ! ?n) = None" "promise (cacheEntryStatus (hooks ?s1' ! ?n)) = None"
    "?n < length (hooks ?s1')" "mounted (hooks ?s1' ! ?n)"
    by (simp_all add: initial_hook_def idleEntry_def)
  have nores: "status e \<noteq> Resolved" if "truthy k = Some key" "asyncDataCache ?s1' key = Some e" for key e
    using assms(2)[OF that(1)] that(2) by simp
  have f: "data (hooks (fetchData ?n k 1 ?s1') ! ?n) = None
       \<and> isLoading (hooks (fetchData ?n k 1 ?s1') ! ?n) = True
       \<and> error (hooks (fetchData ?n k 1 ?s1') ! ?n) = None"
    using fetchData_exposed[where i = ?n and s = ?s1' and k = k and r = 1, OF h1(5,6) nores] h1(1)
    by simp
  have init: "initializeFetch ?eff ?s1 = (fetchData ?n k 1 ?s1', None)"
  proof (cases "truthy k")
    case None
    then show ?thesis by (simp add: initializeFetch_def Let_def)
  next
    case (Some key)
    show ?thesis
    proof (cases "asyncDataCache s key")
      case None
      with Some show ?thesis by (simp add: initializeFetch_def Let_def)
    next
      case (Some cached)
      from assms(2)[OF \<open>truthy k = Some key\<close> Some] have nr: "status cached \<noteq> Resolved" .
      from assms(1) Some have "entry_ok cached" by (simp add: cache_ok_def)
      then have "status cached = Pending \<longrightarrow> promise cached \<noteq> None"
        by (cases "status cached") (simp_all add: entry_ok_def)
      with nr \<open>truthy k = Some key\<close> Some h1(4) show ?thesis
        by (auto simp add: initializeFetch_def Let_def initial_hook_def idleEntry_def)
    qed
  qed
  have eq: "step s (Mount k) = update_hook ?n (\<lambda>h. h\<lparr>destroy := Some ?eff\<rparr>)
      (case truthy k of None \<Rightarrow> fetchData ?n k 1 ?s1'
       | Some key \<Rightarrow> (fetchData ?n k 1 ?s1')\<lparr>subscribers := subscribe key ?eff (subscribers (fetchData ?n k 1 ?s1'))\<rparr>)"
    using init by (simp add: useEffect_def Let_def initial_hook_def cong: option.case_cong)
  have len: "?n < length (hooks (fetchData ?n k 1 ?s1'))"
    using launched_length[OF launched_fetchData[of ?n 1 ?s1' k]] by simp
  show ?thesis unfolding eq using f len
    by (cases "truthy k") (simp_all add: nth_list_update_if)
qed

text \<open>
  C10.  As long as no promise has settled (so that no cached value can have been
  adopted), after any sequence of mounts, renders, refetches and unmounts every
  instance shows \<^verbatim>\<open>data = null\<close>, \<^verbatim>\<open>isLoading = true\<close>, \<^verbatim>\<open>error = null\<close>.  And
  an instance that mounts in any reachable state shows these values once its
  first effect has run, unless the cache holds a resolved entry for its key, which
  it adopts.
\<close>

theorem initial_state_until_settlement:
  "((\<forall>e \<in> set evs. \<not> settles e) \<longrightarrow>
      (\<forall>h \<in> set (hooks (run init evs)). data h = None \<and> isLoading h = True \<and> error h = None))
   \<and> ((\<forall>key e. truthy k = Some key \<longrightarrow> asyncDataCache (run init evs) key = Some e
                 \<longrightarrow> status e \<noteq> Resolved) \<longrightarrow>
        data (hooks (step (run init evs) (Mount k)) ! length (hooks (run init evs))) = None
      \<and> isLoading (hooks (step (run init evs) (Mount k)) ! length (hooks (run init evs))) = True
      \<and> error (hooks (step (run init evs) (Mount k)) ! length (hooks (run init evs))) = None)"
proof (intro conjI impI)
  assume "\<forall>e \<in> set evs. \<not> settles e"
  from pristine_run[OF pristine_init this]
  show "\<forall>h \<in> set (hooks (run init evs)). data h = None \<and> isLoading h = True \<and> error h = None"
    by (simp add: pristine_def initial_exposed_def)
next
  assume a: "\<forall>key e. truthy k = Some key \<longrightarrow> asyncDataCache (run init evs) key = Some e
                 \<longrightarrow> status e \<noteq> Resolved"
  have c: "cache_ok (run init evs)" using reachable_consistent[of evs] by (simp add: consistent_def)
  have m: "data (hooks (step (run init evs) (Mount k)) ! length (hooks (run init evs))) = None
      \<and> isLoading (hooks (step (run init evs) (Mount k)) ! length (hooks (run init evs))) = True
      \<and> error (hooks (step (run init evs) (Mount k)) ! length (hooks (run init evs))) = None"
    by (rule mount_exposed[OF c]) (use a in blast)
  from m show "data (hooks (step (run init evs) (Mount k)) ! length (hooks (run init evs))) = None"
    and "isLoading (hooks (step (run init evs) (Mount k)) ! length (hooks (run init evs))) = True"
    and "error (hooks (step (run init evs) (Mount k)) ! length (hooks (run init evs))) = None"
    by blast+
qed

theorem initial_state_until_settlement_witness:
  "\<not> settles (Mount (Some ''k'') :: nat event) \<and> \<not> settles (Refetch 0 :: nat event)
   \<and> \<not> settles (Rerender 0 (Some ''j'') :: nat event)
   \<and> length (hooks (run init [Mount (Some ''k''), Refetch 0, Rerender 0 (Some ''j'')] :: nat state)) = 1
   \<and> data (hooks (run init [Mount (Some ''k''), Refetch 0, Rerender 0 (Some ''j'')] :: nat state) ! 0) = None
   \<and> isLoading (hooks (run init [Mount (Some ''k''), Refetch 0, Rerender 0 (Some ''j'')] :: nat state) ! 0) = True
   \<and> error (hooks (run init [Mount (Some ''k''), Refetch 0, Rerender 0 (Some ''j'')] :: nat state) ! 0) = None
   \<and> asyncDataCache (run init [Mount (Some ''k''), Settle 0 (Rejects JNull)] :: nat state) ''k''
       = Some \<lparr>promise = None, status = Rejected, entry_data = None, entry_error = Some (Error ''null'')\<rparr>
   \<and> length (hooks (run init [Mount (Some ''k''), Settle 0 (Rejects JNull)] :: nat state)) = 1
   \<and> data (hooks (step (run init [Mount (Some ''k''), Settle 0 (Rejects JNull)] :: nat state)
         (Mount (Some ''k''))) ! 1) = None
   \<and> isLoading (hooks (step (run init [Mount (Some ''k''), Settle 0 (Rejects JNull)] :: nat state)
         (Mount (Some ''k''))) ! 1) = True
   \<and> error (hooks (step (run init [Mount (Some ''k''), Settle 0 (Rejects JNull)] :: nat state)
         (Mount (Some ''k''))) ! 1) = None"
proof -
  let ?evs = "[Mount (Some ''k''), Refetch 0, Rerender 0 (Some ''j'')] :: nat event list"
  let ?s = "run init [Mount (Some ''k''), Settle 0 (Rejects JNull)] :: nat state"
  have n: "\<forall>e \<in> set ?evs. \<not> settles e" by simp
  have l: "length (hooks (run init ?evs)) = 1" by code_simp
  then have m: "hooks (run init ?evs) ! 0 \<in> set (hooks (run init ?evs))"
    by (simp del: run.simps)
  from initial_state_until_settlement[of ?evs] n m
  have first: "data (hooks (run init ?evs) ! 0) = None \<and> isLoading (hooks (run init ?evs) ! 0) = True
      \<and> error (hooks (run init ?evs) ! 0) = None"
    by blast
  have c: "asyncDataCache ?s ''k''
       = Some \<lparr>promise = None, status = Rejected, entry_data = None, entry_error = Some (Error ''null'')\<rparr>"
    and l2: "length (hooks ?s) = 1"
    by code_simp+
  have nr: "\<forall>key e. truthy (Some ''k'') = Some key \<longrightarrow> asyncDataCache ?s key = Some e
                 \<longrightarrow> status e \<noteq> Resolved"
    using c by (auto simp: truthy_def simp del: run.simps)
  from initial_state_until_settlement[of "[Mount (Some ''k''), Settle 0 (Rejects JNull)]" "Some ''k''"] nr
  have second: "data (hooks (step ?s (Mount (Some ''k''))) ! length (hooks ?s)) = None
      \<and> isLoading (hooks (step ?s (Mount (Some ''k''))) ! length (hooks ?s)) = True
      \<and> error (hooks (step ?s (Mount (Some ''k''))) ! length (hooks ?s)) = None"
    by blast
  have n': "\<not> settles (Mount (Some ''k'') :: nat event) \<and> \<not> settles (Refetch 0 :: nat event)
   \<and> \<not> settles (Rerender 0 (Some ''j'') :: nat event)" by simp
  from n' l first c l2 second[unfolded l2] show ?thesis by blast
qed

end
